theory Spec2Isabelle
  imports Complex_Main
begin

section \<open>JavaScript numbers\<close>

text \<open>
  A \<^verbatim>\<open>number\<close> is an IEEE 754 double: a finite value, one of the two zeros, one of
  the two infinities, or \<^verbatim>\<open>NaN\<close>. \<open>Fin x\<close> is the finite number of value \<open>x\<close>, with
  \<open>Fin 0\<close> for \<open>+0\<close>; \<open>NegZero\<close> is \<open>-0\<close>.
\<close>

datatype double = Fin real | NegZero | PosInf | NegInf | NotANumber

fun is_finite :: "double \<Rightarrow> bool" where
  "is_finite (Fin x) = True"
| "is_finite NegZero = True"
| "is_finite d = False"

fun val :: "double \<Rightarrow> real" where
  "val (Fin x) = x"
| "val d = 0"

text \<open>The sign bit.\<close>

fun negative :: "double \<Rightarrow> bool" where
  "negative (Fin x) = (x < 0)"
| "negative NegZero = True"
| "negative NegInf = True"
| "negative d = False"

definition zero_of :: "bool \<Rightarrow> double" where
  "zero_of neg = (if neg then NegZero else Fin 0)"

definition inf_of :: "bool \<Rightarrow> double" where
  "inf_of neg = (if neg then NegInf else PosInf)"

subsection \<open>Rounding\<close>

text \<open>
  Round to nearest, ties to even. A real \<open>x\<close> with \<open>2^e \<le> |x| < 2^(e+1)\<close> lies between
  two neighbours of the grid of spacing \<open>2^(e-52)\<close>; below \<open>2^-1022\<close> the spacing stays
  \<open>2^-1074\<close> (subnormal numbers). \<open>rnd_real\<close> is the nearer grid point, the one with
  the even multiple on a tie. From \<open>2^1024\<close> on the result is an infinity; a result 0
  keeps the sign of \<open>x\<close>.
\<close>

definition expo :: "real \<Rightarrow> int" where
  "expo x = \<lfloor>log 2 \<bar>x\<bar>\<rfloor>"

definition ulp :: "real \<Rightarrow> real" where
  "ulp x = 2 powi (max (expo x) (- 1022) - 52)"

definition round_even :: "real \<Rightarrow> int" where
  "round_even q =
     (let f = \<lfloor>q\<rfloor>; d = q - of_int f
      in if d < 1 / 2 then f
         else if 1 / 2 < d then f + 1
         else if even f then f else f + 1)"

definition rnd_real :: "real \<Rightarrow> real" where
  "rnd_real x = of_int (round_even (x / ulp x)) * ulp x"

definition rnd :: "real \<Rightarrow> double" where
  "rnd x =
     (let r = rnd_real x
      in if 2 powi 1024 \<le> \<bar>r\<bar> then inf_of (x < 0)
         else if r = 0 then zero_of (x < 0)
         else Fin r)"

text \<open>The values a double can have: the grid points below \<open>2^1024\<close>.\<close>

definition is_double :: "real \<Rightarrow> bool" where
  "is_double x \<longleftrightarrow> rnd_real x = x \<and> \<bar>x\<bar> < 2 powi 1024"

subsection \<open>Arithmetic and comparison\<close>

text \<open>
  Each operation gives the exact result, rounded. An exact result 0 gets its sign
  from the operands; infinities and \<^verbatim>\<open>NaN\<close> follow IEEE 754.
\<close>

fun d_neg :: "double \<Rightarrow> double" where
  "d_neg (Fin x) = (if x = 0 then NegZero else Fin (- x))"
| "d_neg NegZero = Fin 0"
| "d_neg PosInf = NegInf"
| "d_neg NegInf = PosInf"
| "d_neg NotANumber = NotANumber"

definition d_add :: "double \<Rightarrow> double \<Rightarrow> double" where
  "d_add a b =
     (if a = NotANumber \<or> b = NotANumber then NotANumber
      else if \<not> is_finite a then (if \<not> is_finite b \<and> a \<noteq> b then NotANumber else a)
      else if \<not> is_finite b then b
      else (let x = val a + val b
            in if x = 0 then zero_of (negative a \<and> negative b) else rnd x))"

definition d_sub :: "double \<Rightarrow> double \<Rightarrow> double" where
  "d_sub a b = d_add a (d_neg b)"

definition d_mul :: "double \<Rightarrow> double \<Rightarrow> double" where
  "d_mul a b =
     (if a = NotANumber \<or> b = NotANumber then NotANumber
      else if \<not> is_finite a \<or> \<not> is_finite b then
        (if (is_finite a \<and> val a = 0) \<or> (is_finite b \<and> val b = 0) then NotANumber
         else inf_of (negative a \<noteq> negative b))
      else (let x = val a * val b
            in if x = 0 then zero_of (negative a \<noteq> negative b) else rnd x))"

definition d_div :: "double \<Rightarrow> double \<Rightarrow> double" where
  "d_div a b =
     (if a = NotANumber \<or> b = NotANumber then NotANumber
      else if \<not> is_finite a then
        (if \<not> is_finite b then NotANumber else inf_of (negative a \<noteq> negative b))
      else if \<not> is_finite b then zero_of (negative a \<noteq> negative b)
      else if val b = 0 then
        (if val a = 0 then NotANumber else inf_of (negative a \<noteq> negative b))
      else (let x = val a / val b
            in if x = 0 then zero_of (negative a \<noteq> negative b) else rnd x))"

text \<open>
  The remainder \<^verbatim>\<open>a % b\<close>: \<open>a - b * q\<close> with the quotient \<open>q\<close> truncated towards 0. It
  has the sign of \<open>a\<close> and is exact (no rounding).
\<close>

definition trunc :: "real \<Rightarrow> int" where
  "trunc q = (if 0 \<le> q then \<lfloor>q\<rfloor> else \<lceil>q\<rceil>)"

definition d_rem :: "double \<Rightarrow> double \<Rightarrow> double" where
  "d_rem a b =
     (if a = NotANumber \<or> b = NotANumber then NotANumber
      else if \<not> is_finite a then NotANumber
      else if is_finite b \<and> val b = 0 then NotANumber
      else if \<not> is_finite b then a
      else if val a = 0 then a
      else (let r = val a - val b * of_int (trunc (val a / val b))
            in if r = 0 then zero_of (negative a) else Fin r))"

text \<open>\<^verbatim>\<open>a < b\<close>, \<^verbatim>\<open>a === b\<close> and \<^verbatim>\<open>a >= b\<close>: false whenever an operand is \<^verbatim>\<open>NaN\<close>.\<close>

definition d_lt :: "double \<Rightarrow> double \<Rightarrow> bool" where
  "d_lt a b =
     (if a = NotANumber \<or> b = NotANumber then False
      else if a = PosInf \<or> b = NegInf then False
      else if a = NegInf \<or> b = PosInf then True
      else val a < val b)"

definition d_eq :: "double \<Rightarrow> double \<Rightarrow> bool" where
  "d_eq a b =
     (if a = NotANumber \<or> b = NotANumber then False
      else if is_finite a \<and> is_finite b then val a = val b
      else a = b)"

definition d_ge :: "double \<Rightarrow> double \<Rightarrow> bool" where
  "d_ge a b = (d_lt b a \<or> d_eq a b)"

text \<open>The double of an integer (when the integer is one).\<close>

definition D :: "int \<Rightarrow> double" where
  "D k = Fin (of_int k)"

text \<open>A finite double whose value is the integer \<open>k\<close> (either zero for \<open>k = 0\<close>).\<close>

definition int_val :: "double \<Rightarrow> int \<Rightarrow> bool" where
  "int_val d k \<longleftrightarrow> is_finite d \<and> d \<noteq> NotANumber \<and> val d = of_int k"

section \<open>Coordinate kernel (helpers.ts)\<close>

text \<open>
  Tuples (\<^verbatim>\<open>number[]\<close>) are lists of doubles. Every \<^verbatim>\<open>throw new Error(...)\<close> of the
  source is a value of \<open>error\<close>, named after the condition it reports.
\<close>

datatype error = LengthMismatch | OutOfBounds | NotAPermutation | DivisionByZero

subsection \<open>coordsFromIndex\<close>

text \<open>
  The callback of \<^verbatim>\<open>[...sizes].reverse().map((dimSize) => ...)\<close> with the running
  variable \<^verbatim>\<open>i\<close> threaded through: \<^verbatim>\<open>coord = i % dimSize\<close>, then
  \<^verbatim>\<open>i = (i - coord) / dimSize\<close>.
\<close>

fun coordsFromIndex_map :: "double \<Rightarrow> double list \<Rightarrow> double list" where
  "coordsFromIndex_map i [] = []"
| "coordsFromIndex_map i (dimSize # rest) =
     (let coord = d_rem i dimSize
      in coord # coordsFromIndex_map (d_div (d_sub i coord) dimSize) rest)"

definition coordsFromIndex :: "double \<Rightarrow> double list \<Rightarrow> double list" where
  "coordsFromIndex index sizes = rev (coordsFromIndex_map index (rev sizes))"

subsection \<open>coordsToIndex\<close>

text \<open>
  The \<^verbatim>\<open>forEach\<close> over \<^verbatim>\<open>coordsRev\<close>, with \<^verbatim>\<open>factor\<close> and \<^verbatim>\<open>res\<close> as the state:
  \<^verbatim>\<open>res += factor * coord\<close>, then \<^verbatim>\<open>factor *= sizesRev[dim]\<close>. The loop runs behind
  the length check, so \<^verbatim>\<open>sizesRev[dim]\<close> exists for every \<^verbatim>\<open>dim\<close> it reads; past the
  end of \<^verbatim>\<open>sizesRev\<close> the read is \<^verbatim>\<open>undefined\<close> and the factor becomes \<^verbatim>\<open>NaN\<close> (the
  last equation, which the guarded loop never reaches).
\<close>

fun coordsToIndex_loop :: "double \<Rightarrow> double \<Rightarrow> double list \<Rightarrow> double list \<Rightarrow> double" where
  "coordsToIndex_loop factor res [] sizesRev = res"
| "coordsToIndex_loop factor res (coord # coordsRev) (s # sizesRev) =
     coordsToIndex_loop (d_mul factor s) (d_add res (d_mul factor coord)) coordsRev sizesRev"
| "coordsToIndex_loop factor res (coord # coordsRev) [] =
     coordsToIndex_loop NotANumber (d_add res (d_mul factor coord)) coordsRev []"

definition coordsToIndex :: "double list \<Rightarrow> double list \<Rightarrow> error + double" where
  "coordsToIndex coords sizes =
     (if length coords \<noteq> length sizes then Inl LengthMismatch
      else Inr (coordsToIndex_loop (Fin 1) (Fin 0) (rev coords) (rev sizes)))"

subsection \<open>checkCoordsSizesCompability\<close>

text \<open>
  The \<^verbatim>\<open>for\<close> loop over the positions, with the test \<^verbatim>\<open>c < 0 || c >= sizes[i]\<close>. It
  too runs behind the length check; a comparison \<^verbatim>\<open>c >= undefined\<close> is false, so past
  the end of \<^verbatim>\<open>sizes\<close> only \<^verbatim>\<open>c < 0\<close> could fail (the last equation, never reached).
\<close>

fun checkCoords_loop :: "double list \<Rightarrow> double list \<Rightarrow> error + unit" where
  "checkCoords_loop [] sizes = Inr ()"
| "checkCoords_loop (c # coords) (s # sizes) =
     (if d_lt c (Fin 0) \<or> d_ge c s then Inl OutOfBounds else checkCoords_loop coords sizes)"
| "checkCoords_loop (c # coords) [] =
     (if d_lt c (Fin 0) then Inl OutOfBounds else checkCoords_loop coords [])"

definition checkCoordsSizesCompability :: "double list \<Rightarrow> double list \<Rightarrow> error + unit" where
  "checkCoordsSizesCompability coords sizes =
     (if length coords \<noteq> length sizes then Inl LengthMismatch
      else checkCoords_loop coords sizes)"

subsection \<open>JavaScript arrays\<close>

text \<open>
  \<^verbatim>\<open>isPermutation\<close> and \<^verbatim>\<open>joinCoordsFunc\<close> write into arrays by index, and what
  JavaScript does with an index outside the array decides what they return. An
  array is a list of \<open>jsval\<close>: an integer, \<^verbatim>\<open>NaN\<close>, or \<^verbatim>\<open>undefined\<close> (which is
  also what a hole of a sparse array reads as).

  Reading \<^verbatim>\<open>a[x]\<close> outside \<open>[0, length)\<close> gives \<^verbatim>\<open>undefined\<close>. Writing
  \<^verbatim>\<open>a[x] = v\<close> inside the array replaces the element; at an index from the length
  up to \<open>2^32 - 2\<close> it extends the array, leaving holes in between; at any other
  integer key (negative, or beyond the largest array index) it sets a plain
  property of the object, which neither the length nor an iteration over the
  elements sees, so the element list is unchanged. (Such a property can only
  hold \<^verbatim>\<open>NaN\<close> in \<^verbatim>\<open>isPermutation\<close>, and \<^verbatim>\<open>NaN + 1\<close> and \<^verbatim>\<open>undefined + 1\<close> are
  both \<^verbatim>\<open>NaN\<close>, so reading it back as \<^verbatim>\<open>undefined\<close> changes nothing.)
\<close>

datatype jsval = Num int | NaN | Undefined

definition arr_get :: "jsval list \<Rightarrow> int \<Rightarrow> jsval" where
  "arr_get a x = (if 0 \<le> x \<and> x < int (length a) then a ! nat x else Undefined)"

definition arr_set :: "jsval list \<Rightarrow> int \<Rightarrow> jsval \<Rightarrow> jsval list" where
  "arr_set a x v =
     (if 0 \<le> x \<and> x < int (length a) then a[nat x := v]
      else if int (length a) \<le> x \<and> x < 4294967295
        then a @ replicate (nat x - length a) Undefined @ [v]
      else a)"

text \<open>\<^verbatim>\<open>v + 1\<close>, and the truthiness \<^verbatim>\<open>_.every\<close> tests with its identity predicate.\<close>

fun js_add1 :: "jsval \<Rightarrow> jsval" where
  "js_add1 (Num k) = Num (k + 1)"
| "js_add1 NaN = NaN"
| "js_add1 Undefined = NaN"

fun truthy :: "jsval \<Rightarrow> bool" where
  "truthy (Num k) = (k \<noteq> 0)"
| "truthy NaN = False"
| "truthy Undefined = False"

subsection \<open>isPermutation\<close>

text \<open>
  One call of the callback \<^verbatim>\<open>(x) => (counts[x] += 1)\<close>, and \<^verbatim>\<open>counts\<close> after
  \<^verbatim>\<open>array.forEach\<close> has run it over the array, starting from
  \<^verbatim>\<open>new Array(array.length).fill(0)\<close>.
\<close>

definition count_step :: "jsval list \<Rightarrow> int \<Rightarrow> jsval list" where
  "count_step counts x = arr_set counts x (js_add1 (arr_get counts x))"

definition isPermutation_counts :: "int list \<Rightarrow> jsval list" where
  "isPermutation_counts array =
     foldl count_step (replicate (length array) (Num 0)) array"

text \<open>
  The optional parameter \<^verbatim>\<open>n = array.length\<close> is an \<open>int option\<close>: \<open>None\<close> when the
  caller leaves it out. \<^verbatim>\<open>_.every(counts)\<close> tests every element of the array,
  holes included.
\<close>

definition isPermutation :: "int list \<Rightarrow> int option \<Rightarrow> bool" where
  "isPermutation array n_arg =
     (let n = (case n_arg of None \<Rightarrow> int (length array) | Some n \<Rightarrow> n)
      in if int (length array) \<noteq> n then False
         else list_all truthy (isPermutation_counts array))"

subsection \<open>indicesComplement\<close>

text \<open>
  \<^verbatim>\<open>_.range(n)\<close> of lodash counts from 0 up to \<open>n - 1\<close>, and for a negative \<open>n\<close>
  down to \<open>n + 1\<close>. \<^verbatim>\<open>_.includes(indices, i)\<close> is membership.
\<close>

definition lodash_range :: "int \<Rightarrow> int list" where
  "lodash_range n = (if 0 \<le> n then [0..n - 1] else map uminus [0..- n - 1])"

definition indicesComplement :: "int list \<Rightarrow> int \<Rightarrow> error + int list" where
  "indicesComplement indices n =
     (let res = filter (\<lambda>i. i \<notin> set indices) (lodash_range n)
      in if \<not> isPermutation (indices @ res) None then Inl NotAPermutation
         else Inr res)"

subsection \<open>joinCoordsFunc\<close>

text \<open>
  One \<^verbatim>\<open>forEach((c, i) => { coord[indices[i]] = c })\<close>, with the position \<open>i\<close> as a
  counter. Where \<^verbatim>\<open>indices[i]\<close> does not exist the key is \<^verbatim>\<open>undefined\<close>, and the write
  sets the property of that name: no element changes.
\<close>

fun forEach_place :: "jsval list \<Rightarrow> int list \<Rightarrow> nat \<Rightarrow> int list \<Rightarrow> jsval list" where
  "forEach_place coord indices i [] = coord"
| "forEach_place coord indices i (c # cs) =
     forEach_place
       (if i < length indices then arr_set coord (indices ! i) (Num c) else coord)
       indices (Suc i) cs"

text \<open>
  The function \<^verbatim>\<open>joinCoordsFunc\<close> returns, applied to its two arguments;
  \<^verbatim>\<open>new Array(k)\<close> is an array of \<open>k\<close> holes.
\<close>

definition joinCoordsFunc ::
  "int list \<Rightarrow> int list \<Rightarrow> int list \<Rightarrow> int list \<Rightarrow> jsval list" where
  "joinCoordsFunc coordIndices complementIndices coordGroup coordContraction =
     (let coord = replicate (length coordIndices + length complementIndices) Undefined;
          coord1 = forEach_place coord complementIndices 0 coordGroup
      in forEach_place coord1 coordIndices 0 coordContraction)"

section \<open>Complex numbers (Complex.ts)\<close>

text \<open>The class \<^verbatim>\<open>Complex\<close> has two fields of type \<^verbatim>\<open>number\<close>.\<close>

record cplx =
  re :: double
  im :: double

definition Cx :: "double \<Rightarrow> double \<Rightarrow> cplx" where
  "Cx r i = \<lparr>re = r, im = i\<rparr>"



text \<open>\<^verbatim>\<open>div\<close> and \<^verbatim>\<open>equal\<close> of the source; the names are taken in HOL.\<close>

definition div_cx :: "cplx \<Rightarrow> cplx \<Rightarrow> error + cplx" where
  "div_cx z1 z2 =
     (let denom = d_add (d_mul (im z2) (im z2)) (d_mul (re z2) (re z2))
      in if d_eq denom (Fin 0) then Inl DivisionByZero
         else Inr (Cx (d_div (d_add (d_mul (re z1) (re z2)) (d_mul (im z1) (im z2))) denom)
                      (d_div (d_sub (d_mul (re z2) (im z1)) (d_mul (re z1) (im z2))) denom)))"


subsection \<open>Math.atan2 and arg\<close>






text \<open>The number of HOL's type \<^typ>\<open>complex\<close> that a finite value of the class stands for.\<close>

definition to_complex :: "cplx \<Rightarrow> complex" where
  "to_complex z = Complex (val (re z)) (val (im z))"

text \<open>
  A finite double whose square is at most \<open>2^-1075\<close>, so that the square rounds to 0.
\<close>

definition tiny :: "double \<Rightarrow> bool" where
  "tiny d \<longleftrightarrow> is_finite d \<and> (val d)\<^sup>2 \<le> 2 powi (- 1075)"

text \<open>
  The division of \<open>a + bi\<close> by \<open>c + di\<close> rounds nowhere: every product, sum and
  quotient that \<^verbatim>\<open>div\<close> computes is a double, and the denominator is not 0.
\<close>

definition exact_div :: "real \<Rightarrow> real \<Rightarrow> real \<Rightarrow> real \<Rightarrow> bool" where
  "exact_div a b c d \<longleftrightarrow>
     is_double (d * d) \<and> is_double (c * c) \<and> is_double (d * d + c * c)
     \<and> d * d + c * c \<noteq> 0
     \<and> is_double (a * c) \<and> is_double (b * d) \<and> is_double (a * c + b * d)
     \<and> is_double (c * b) \<and> is_double (a * d) \<and> is_double (c * b - a * d)
     \<and> is_double ((a * c + b * d) / (d * d + c * c))
     \<and> is_double ((c * b - a * d) / (d * d + c * c))"

section \<open>Mixed-radix numbers\<close>

text \<open>
  The exact integer a least-significant-first digit list stands for, and the digits of
  an integer; used to state what the two loops compute when nothing is rounded.
\<close>

fun radix_value :: "int list \<Rightarrow> int list \<Rightarrow> int" where
  "radix_value (c # cs) (s # ss) = c + s * radix_value cs ss"
| "radix_value cs ss = 0"

fun radix_digits :: "int \<Rightarrow> int list \<Rightarrow> int list" where
  "radix_digits i [] = []"
| "radix_digits i (s # ss) = (i mod s) # radix_digits (i div s) ss"

section \<open>Properties of JavaScript numbers\<close>

subsection \<open>Rounding\<close>

lemma two_powi_powr: "2 powi k = (2::real) powr (of_int k)"
  by (simp add: powr_real_of_int power_int_def power_one_over inverse_eq_divide)

lemma two_powi_less_iff: "(2::real) powi m < 2 powi n \<longleftrightarrow> m < n"
proof
  assume "(2::real) powi m < 2 powi n"
  show "m < n"
  proof (rule ccontr)
    assume "\<not> m < n"
    then have "(2::real) powi n \<le> 2 powi m"
      by (intro power_int_increasing) simp_all
    then show False using \<open>(2::real) powi m < 2 powi n\<close> by simp
  qed
next
  assume "m < n"
  then show "(2::real) powi m < 2 powi n"
    by (intro power_int_strict_increasing) simp_all
qed

lemma two_powi_le_iff: "(2::real) powi m \<le> 2 powi n \<longleftrightarrow> m \<le> n"
  using two_powi_less_iff [of n m] by (simp add: not_less [symmetric])

lemma expo_eq:
  assumes "2 powi e \<le> \<bar>x\<bar>" and "\<bar>x\<bar> < 2 powi (e + 1)"
  shows "expo x = e"
proof -
  have pos: "0 < \<bar>x\<bar>"
    using assms(1) by (smt (verit) zero_less_power_int)
  show ?thesis
    unfolding expo_def
    using assms floor_log_eq_powr_iff [of "\<bar>x\<bar>" 2 e] pos
    by (simp add: two_powi_powr)
qed

lemma expo_bounds:
  assumes "x \<noteq> 0"
  shows "2 powi (expo x) \<le> \<bar>x\<bar>" and "\<bar>x\<bar> < 2 powi (expo x + 1)"
proof -
  have pos: "0 < \<bar>x\<bar>" using assms by simp
  have "\<lfloor>log 2 \<bar>x\<bar>\<rfloor> = expo x" by (simp add: expo_def)
  then have "2 powr (of_int (expo x)) \<le> \<bar>x\<bar> \<and> \<bar>x\<bar> < 2 powr (of_int (expo x + 1))"
    using floor_log_eq_powr_iff [of "\<bar>x\<bar>" 2 "expo x"] pos by simp
  then show "2 powi (expo x) \<le> \<bar>x\<bar>" and "\<bar>x\<bar> < 2 powi (expo x + 1)"
    by (simp_all add: two_powi_powr)
qed

lemma ulp_pos: "0 < ulp x"
  by (simp add: ulp_def)

lemma ulp_eq:
  assumes "2 powi e \<le> \<bar>x\<bar>" and "\<bar>x\<bar> < 2 powi (e + 1)"
  shows "ulp x = 2 powi (max e (- 1022) - 52)"
  by (simp add: ulp_def expo_eq [OF assms])

lemma ulp_minus: "ulp (- x) = ulp x"
  by (simp add: ulp_def expo_def)

lemma round_even_of_int [simp]: "round_even (of_int n) = n"
  by (simp add: round_even_def)


lemma round_even_ge:
  assumes "of_int n \<le> q"
  shows "n \<le> round_even q"
proof -
  have "n \<le> \<lfloor>q\<rfloor>" using assms by (simp add: le_floor_iff)
  then show ?thesis
    by (auto simp: round_even_def Let_def)
qed


lemma round_even_minus: "round_even (- q) = - round_even q"
proof (cases "q = of_int \<lfloor>q\<rfloor>")
  case True
  then have "round_even q = \<lfloor>q\<rfloor>" by (metis round_even_of_int)
  moreover have "- q = of_int (- \<lfloor>q\<rfloor>)" using True by simp
  then have "round_even (- q) = - \<lfloor>q\<rfloor>" by (metis round_even_of_int)
  ultimately show ?thesis by simp
next
  case False
  have d: "0 < q - of_int \<lfloor>q\<rfloor>" "q - of_int \<lfloor>q\<rfloor> < 1"
    using False by linarith+
  have f: "\<lfloor>- q\<rfloor> = - \<lfloor>q\<rfloor> - 1"
  proof (rule floor_unique)
    show "of_int (- \<lfloor>q\<rfloor> - 1) \<le> - q" using d by simp
    show "- q < of_int (- \<lfloor>q\<rfloor> - 1) + 1" using d by simp
  qed
  show ?thesis
    using d f by (auto simp: round_even_def Let_def)
qed

lemma round_even_near: "\<bar>of_int (round_even q) - q\<bar> \<le> 1 / 2"
  by (auto simp: round_even_def Let_def)

lemma round_even_zero [simp]: "round_even 0 = 0"
  by (simp add: round_even_def)

lemma rnd_real_zero [simp]: "rnd_real 0 = 0"
  by (simp add: rnd_real_def)

lemma rnd_real_minus: "rnd_real (- x) = - rnd_real x"
  by (simp add: rnd_real_def ulp_minus round_even_minus)

lemma rnd_real_nonneg: "0 \<le> x \<Longrightarrow> 0 \<le> rnd_real x"
proof -
  assume "0 \<le> x"
  then have "of_int 0 \<le> x / ulp x" using ulp_pos [of x] by simp
  then have "0 \<le> round_even (x / ulp x)" by (rule round_even_ge)
  then show ?thesis using ulp_pos [of x] by (simp add: rnd_real_def)
qed

lemma rnd_real_grid: "x = of_int n * ulp x \<Longrightarrow> rnd_real x = x"
proof -
  assume x: "x = of_int n * ulp x"
  have "x / ulp x = of_int n"
    using ulp_pos [of x] by (subst x) simp
  then show ?thesis
    using x by (simp add: rnd_real_def)
qed

lemma rnd_real_eval:
  assumes "2 powi e \<le> \<bar>x\<bar>" and "\<bar>x\<bar> < 2 powi (e + 1)"
  shows "rnd_real x = of_int (round_even (x / 2 powi (max e (- 1022) - 52)))
                      * 2 powi (max e (- 1022) - 52)"
  by (simp add: rnd_real_def ulp_eq [OF assms])

text \<open>Integers up to \<open>2^53\<close> are doubles.\<close>

lemma rnd_real_int:
  assumes "\<bar>k\<bar> \<le> 2 ^ 53"
  shows "rnd_real (of_int k) = of_int k"
proof (cases "k = 0")
  case True
  then show ?thesis by simp
next
  case False
  define x :: real where "x = of_int k"
  define e where "e = expo x"
  have x0: "x \<noteq> 0" using False by (simp add: x_def)
  have lo: "2 powi e \<le> \<bar>x\<bar>" and hi: "\<bar>x\<bar> < 2 powi (e + 1)"
    using expo_bounds [OF x0] by (simp_all add: e_def)
  have "1 \<le> \<bar>x\<bar>" using False by (simp add: x_def)
  then have "(2::real) powi 0 < 2 powi (e + 1)" using hi by simp
  then have e0: "0 \<le> e"
    unfolding two_powi_less_iff by simp
  have "\<bar>x\<bar> \<le> 2 powi 53" using assms by (simp add: x_def, linarith?)
  then have "(2::real) powi e \<le> 2 powi 53" using lo by linarith
  then have e53: "e \<le> 53" unfolding two_powi_le_iff .
  have u: "ulp x = 2 powi (e - 52)"
    using e0 by (simp add: ulp_def e_def max_def)
  show ?thesis
  proof (cases "e \<le> 52")
    case True
    have one: "2 powi (52 - e) * 2 powi (e - 52) = (1::real)"
      by (simp flip: power_int_add)
    have p: "(2::real) powi (52 - e) = 2 ^ nat (52 - e)"
      using True by (simp add: power_int_def)
    have "of_int (k * 2 ^ nat (52 - e)) * ulp x = x * (2 powi (52 - e) * 2 powi (e - 52))"
      unfolding u by (simp add: p [symmetric] mult.assoc x_def)
    then have "x = of_int (k * 2 ^ nat (52 - e)) * ulp x"
      unfolding one by simp
    then show ?thesis unfolding x_def [symmetric] by (rule rnd_real_grid)
  next
    case False
    then have e: "e = 53" using e53 by simp
    have "\<bar>x\<bar> = 2 ^ 53"
      using lo \<open>\<bar>x\<bar> \<le> 2 powi 53\<close> by (simp add: e)
    then have "\<bar>k\<bar> = 2 ^ 53"
      by (simp add: x_def, linarith?)
    then have "even \<bar>k\<bar>" by simp
    then have "even k" by simp
    then have "k = 2 * (k div 2)" by simp
    then have "x = 2 * of_int (k div 2)"
      unfolding x_def by (metis of_int_mult of_int_numeral)
    moreover have "ulp x = 2" using u e by simp
    ultimately have "x = of_int (k div 2) * ulp x"
      by (simp only: mult.commute)
    then show ?thesis unfolding x_def [symmetric] by (rule rnd_real_grid)
  qed
qed




lemma rnd_real_lower:
  assumes "0 < x" and "- 1022 \<le> expo x"
  shows "2 powi (expo x) \<le> rnd_real x"
proof -
  define e where "e = expo x"
  have u: "ulp x = 2 powi (e - 52)" using assms(2) by (simp add: ulp_def e_def max_def)
  have "(2::real) powi (52 + (e - 52)) = 2 powi 52 * 2 powi (e - 52)"
    by (rule power_int_add) simp
  then have split: "(2::real) powi e = 2 ^ 52 * 2 powi (e - 52)"
    by simp
  have "2 ^ 52 * ulp x \<le> x"
    using expo_bounds(1) [of x] assms(1) by (simp add: e_def [symmetric] u split)
  then have "of_int (2 ^ 52) \<le> x / ulp x"
    using ulp_pos [of x] by (simp add: le_divide_eq)
  then have "2 ^ 52 \<le> round_even (x / ulp x)" by (rule round_even_ge)
  then have "(2 ^ 52 :: real) \<le> of_int (round_even (x / ulp x))"
    by (metis of_int_le_iff of_int_numeral of_int_power)
  then have "2 ^ 52 * ulp x \<le> rnd_real x"
    using ulp_pos [of x] by (simp add: rnd_real_def)
  then show ?thesis by (simp add: e_def [symmetric] u split)
qed



text \<open>What rounds to 0, and the least positive result.\<close>

lemma rnd_real_eq_0_iff: "rnd_real x = 0 \<longleftrightarrow> \<bar>x\<bar> \<le> 2 powi (- 1075)"
proof -
  have pos: "rnd_real x = 0 \<longleftrightarrow> x \<le> 2 powi (- 1075)" if x: "0 < x" for x
  proof (cases "- 1022 \<le> expo x")
    case True
    have "0 < (2::real) powi (expo x)" by simp
    then have "0 < rnd_real x" using rnd_real_lower [OF x True] by linarith
    moreover have "2 powi (- 1075) < (2::real) powi (expo x)"
      using True by (simp only: two_powi_less_iff)
    then have "2 powi (- 1075) < x" using expo_bounds(1) [of x] x by simp
    ultimately show ?thesis by simp
  next
    case False
    define w :: real where "w = 2 powi (- 1074)"
    have w: "0 < w" by (simp add: w_def)
    have u: "ulp x = w" using False by (simp add: ulp_def max_def w_def)
    have "(2::real) powi (1 + (- 1075)) = 2 powi 1 * 2 powi (- 1075)"
      by (rule power_int_add) simp
    then have half: "(2::real) powi (- 1075) = w / 2"
      by (simp add: w_def)
    have q: "0 < x / w" using x w by simp
    have "rnd_real x = 0 \<longleftrightarrow> round_even (x / w) = 0"
      using w by (simp add: rnd_real_def u)
    also have "\<dots> \<longleftrightarrow> x / w \<le> 1 / 2"
    proof
      assume "round_even (x / w) = 0"
      then have "\<bar>0 - x / w\<bar> \<le> 1 / 2"
        using round_even_near [of "x / w"] by simp
      then show "x / w \<le> 1 / 2" by linarith
    next
      assume le: "x / w \<le> 1 / 2"
      then have "\<lfloor>x / w\<rfloor> = 0" using q by linarith
      then show "round_even (x / w) = 0"
        using le by (simp add: round_even_def)
    qed
    also have "\<dots> \<longleftrightarrow> x \<le> w / 2"
      using w by (simp add: field_simps)
    also have "\<dots> \<longleftrightarrow> x \<le> 2 powi (- 1075)"
      unfolding half ..
    finally show ?thesis .
  qed
  consider "0 < x" | "x = 0" | "x < 0" by linarith
  then show ?thesis
  proof cases
    case 1
    then show ?thesis using pos [of x] by simp
  next
    case 2
    then show ?thesis by simp
  next
    case 3
    then show ?thesis using pos [of "- x"] by (simp add: rnd_real_minus)
  qed
qed

lemma rnd_real_least:
  assumes "0 < rnd_real x"
  shows "2 powi (- 1074) \<le> rnd_real x"
proof -
  have "0 < round_even (x / ulp x)"
    using assms ulp_pos [of x] by (simp add: rnd_real_def zero_less_mult_iff)
  then have "(1::real) \<le> of_int (round_even (x / ulp x))" by simp
  moreover have "2 powi (- 1074) \<le> ulp x"
    unfolding ulp_def two_powi_le_iff by simp
  ultimately have "1 * 2 powi (- 1074) \<le> of_int (round_even (x / ulp x)) * ulp x"
    by (intro mult_mono) simp_all
  then show ?thesis unfolding rnd_real_def by (simp only: mult_1)
qed

text \<open>Rounding twice is rounding once.\<close>

lemma rnd_real_sign: "0 < x \<Longrightarrow> 0 \<le> rnd_real x" "x < 0 \<Longrightarrow> rnd_real x \<le> 0"
  using rnd_real_nonneg [of x] rnd_real_nonneg [of "- x"] by (simp_all add: rnd_real_minus)

subsection \<open>Operations on integers that stay within \<open>2^53\<close>\<close>

lemma rnd_int:
  assumes "\<bar>k\<bar> \<le> 2 ^ 53" and "k \<noteq> 0"
  shows "rnd (of_int k) = Fin (of_int k)"
proof -
  have "\<bar>real_of_int k\<bar> \<le> 2 ^ 53"
    using assms(1) by (metis of_int_abs of_int_le_iff of_int_numeral of_int_power)
  then have "\<bar>real_of_int k\<bar> < 2 powi 1024" by simp
  then show ?thesis
    using assms(2) by (simp add: rnd_def rnd_real_int [OF assms(1)] Let_def)
qed

lemma int_val_D [simp]: "int_val (D k) k"
  by (simp add: int_val_def D_def)

lemma int_val_cases:
  assumes "int_val a k"
  obtains "a = D k" | "a = NegZero" "k = 0"
  using assms by (cases a) (auto simp: int_val_def D_def)

lemma int_val_negative: "int_val a k \<Longrightarrow> k \<noteq> 0 \<Longrightarrow> negative a \<longleftrightarrow> k < 0"
  by (cases a) (auto simp: int_val_def)

lemma int_val_rnd:
  assumes "\<bar>k\<bar> \<le> 2 ^ 53" and "k \<noteq> 0"
  shows "int_val (rnd (of_int k)) k"
  by (simp add: rnd_int [OF assms] int_val_def)

lemma int_val_zero_of [simp]: "int_val (zero_of s) 0"
  by (simp add: int_val_def zero_of_def)

lemma d_neg_int: "int_val a k \<Longrightarrow> int_val (d_neg a) (- k)"
  by (cases a) (auto simp: int_val_def)


lemma d_add_D:
  assumes "int_val b l" and "\<bar>k + l\<bar> \<le> 2 ^ 53"
  shows "d_add (D k) b = D (k + l)"
proof -
  have fin: "is_finite b" "b \<noteq> NotANumber" and v: "of_int k + val b = of_int (k + l)"
    using assms(1) by (simp_all add: int_val_def)
  show ?thesis
  proof (cases "k + l = 0")
    case True
    have "\<not> (negative (D k) \<and> negative b)"
    proof (cases "k = 0")
      case True
      then show ?thesis by (simp add: D_def)
    next
      case False
      then have "l \<noteq> 0" "k < 0 \<longleftrightarrow> \<not> l < 0" using \<open>k + l = 0\<close> by auto
      then show ?thesis
        using int_val_negative [OF assms(1)] by (simp add: D_def)
    qed
    then show ?thesis
      using True fin v by (simp add: d_add_def D_def zero_of_def)
  next
    case False
    then have "d_add (D k) b = rnd (of_int (k + l))"
      using fin v by (simp add: d_add_def D_def del: of_int_add)
    then show ?thesis using rnd_int [OF assms(2) False] by (simp add: D_def)
  qed
qed


lemma d_sub_D:
  assumes "int_val b l" and "\<bar>k - l\<bar> \<le> 2 ^ 53"
  shows "d_sub (D k) b = D (k - l)"
  using d_add_D [OF d_neg_int [OF assms(1)], of k] assms(2) by (simp add: d_sub_def)

lemma d_mul_int:
  assumes "int_val a k" and "int_val b l" and "\<bar>k * l\<bar> \<le> 2 ^ 53"
  shows "int_val (d_mul a b) (k * l)"
proof -
  have fin: "is_finite a" "is_finite b" "a \<noteq> NotANumber" "b \<noteq> NotANumber"
    and v: "val a * val b = of_int (k * l)"
    using assms(1,2) by (simp_all add: int_val_def)
  show ?thesis
  proof (cases "k * l = 0")
    case True
    then have "val a * val b = 0" using v by simp
    then have "d_mul a b = zero_of (negative a \<noteq> negative b)"
      using fin by (simp add: d_mul_def)
    then show ?thesis by (simp add: True)
  next
    case False
    then have "d_mul a b = rnd (of_int (k * l))"
      using fin v by (simp add: d_mul_def del: of_int_mult)
    then show ?thesis using int_val_rnd [OF assms(3) False] by simp
  qed
qed

lemma d_mul_D:
  assumes "0 \<le> k" and "0 \<le> l" and "k * l \<le> 2 ^ 53"
  shows "d_mul (D k) (D l) = D (k * l)"
proof (cases "k * l = 0")
  case True
  then show ?thesis
    using assms(1,2) by (auto simp: d_mul_def D_def zero_of_def)
next
  case False
  have "\<bar>k * l\<bar> \<le> 2 ^ 53" using assms by (simp add: abs_mult)
  then show ?thesis
    using False rnd_int [of "k * l"] by (simp add: d_mul_def D_def)
qed

lemma d_div_D:
  assumes "0 \<le> j" and "0 < s" and "s dvd j" and "j \<le> 2 ^ 53"
  shows "d_div (D j) (D s) = D (j div s)"
proof -
  have q: "real_of_int j / of_int s = of_int (j div s)"
    using assms(2,3) by (simp add: real_of_int_div)
  have bound: "\<bar>j div s\<bar> \<le> 2 ^ 53"
  proof -
    have "0 \<le> j div s" using assms(1,2) by (simp add: pos_imp_zdiv_nonneg_iff)
    moreover have "j div s \<le> j div 1"
      using assms(1,2) by (intro zdiv_mono2) simp_all
    ultimately show ?thesis using assms(4) by simp
  qed
  show ?thesis
  proof (cases "j div s = 0")
    case True
    then show ?thesis
      using assms(1,2) q by (simp add: d_div_def D_def zero_of_def)
  next
    case False
    then show ?thesis
      using assms(2) q rnd_int [OF bound False] by (simp add: d_div_def D_def)
  qed
qed

lemma d_rem_D:
  assumes "0 \<le> k" and "0 < s"
  shows "d_rem (D k) (D s) = D (k mod s)"
proof (cases "k = 0")
  case True
  then show ?thesis using assms(2) by (simp add: d_rem_def D_def)
next
  case False
  have "0 \<le> real_of_int k / of_int s" using assms by simp
  then have "trunc (real_of_int k / of_int s) = k div s"
    by (simp add: trunc_def floor_divide_of_int_eq)
  then have r: "real_of_int k - of_int s * of_int (trunc (of_int k / of_int s)) = of_int (k mod s)"
    by (simp add: minus_mult_div_eq_mod [symmetric] del: minus_mult_div_eq_mod)
  show ?thesis
    using False assms r by (simp add: d_rem_def D_def zero_of_def Let_def)
qed

lemma d_lt_D [simp]: "d_lt (D a) (D b) \<longleftrightarrow> a < b"
  by (simp add: d_lt_def D_def)

lemma d_eq_D [simp]: "d_eq (D a) (D b) \<longleftrightarrow> a = b"
  by (simp add: d_eq_def D_def)

lemma d_ge_D [simp]: "d_ge (D a) (D b) \<longleftrightarrow> b \<le> a"
  by (auto simp: d_ge_def)


section \<open>Properties of the coordinate kernel\<close>

subsection \<open>Exact mixed-radix arithmetic\<close>

lemma int_div_less:
  fixes i s p :: int
  assumes pos: "0 < s" and lt: "i < s * p"
  shows "i div s < p"
proof -
  have "0 \<le> i mod s" using pos by simp
  moreover have "s * (i div s) + i mod s = i" by simp
  ultimately have "s * (i div s) \<le> i" by linarith
  then have "s * (i div s) < s * p" using lt by linarith
  then show ?thesis using pos by (simp add: mult_less_cancel_left_pos)
qed

lemma radix_value_nonneg:
  "list_all2 (\<lambda>c s. 0 \<le> c \<and> c < s) cs ss \<Longrightarrow> 0 \<le> radix_value cs ss"
  by (induction cs ss rule: list_all2_induct) auto

lemma radix_value_less:
  "list_all2 (\<lambda>c s. 0 \<le> c \<and> c < s) cs ss \<Longrightarrow> radix_value cs ss < prod_list ss"
proof (induction cs ss rule: list_all2_induct)
  case Nil
  then show ?case by simp
next
  case (Cons c cs s ss)
  have "radix_value cs ss + 1 \<le> prod_list ss" using Cons.IH by simp
  then have "s * (radix_value cs ss + 1) \<le> s * prod_list ss"
    using Cons.hyps(1) by (intro mult_left_mono) simp_all
  then have "s * radix_value cs ss + s \<le> s * prod_list ss"
    by (simp add: algebra_simps)
  then show ?case using Cons.hyps(1) by simp
qed

lemma radix_digits_value:
  "list_all2 (\<lambda>c s. 0 \<le> c \<and> c < s) cs ss \<Longrightarrow> radix_digits (radix_value cs ss) ss = cs"
proof (induction cs ss rule: list_all2_induct)
  case Nil
  then show ?case by simp
next
  case (Cons c cs s ss)
  have c: "0 \<le> c" "c < s" using Cons.hyps(1) by auto
  have "(c + s * radix_value cs ss) mod s = c" using c by simp
  moreover have "(c + s * radix_value cs ss) div s = radix_value cs ss" using c by simp
  ultimately show ?case using Cons.IH by simp
qed

lemma radix_value_digits:
  "\<forall>s \<in> set ss. 1 \<le> s \<Longrightarrow> 0 \<le> i \<Longrightarrow> i < prod_list ss \<Longrightarrow>
   list_all2 (\<lambda>c s. 0 \<le> c \<and> c < s) (radix_digits i ss) ss
   \<and> radix_value (radix_digits i ss) ss = i"
proof (induction ss arbitrary: i)
  case Nil
  then show ?case by simp
next
  case (Cons s ss)
  have pos: "0 < s" using Cons.prems(1) by simp
  have "0 \<le> i div s"
    using Cons.prems(2) pos by (simp add: pos_imp_zdiv_nonneg_iff)
  moreover have "i div s < prod_list ss"
    using Cons.prems(3) pos by (simp add: int_div_less)
  moreover have "\<forall>t \<in> set ss. 1 \<le> t"
    using Cons.prems(1) by simp
  ultimately have
    "list_all2 (\<lambda>c s. 0 \<le> c \<and> c < s) (radix_digits (i div s) ss) ss
     \<and> radix_value (radix_digits (i div s) ss) ss = i div s"
    using Cons.IH by blast
  then show ?case using pos by simp
qed

lemma int_mult_ge1: "1 \<le> a \<Longrightarrow> 1 \<le> b \<Longrightarrow> (1::int) \<le> a * b"
  using mult_mono [of 1 a 1 b] by simp

lemma prod_list_ge1: "\<forall>s \<in> set ss. 1 \<le> s \<Longrightarrow> (1::int) \<le> prod_list ss"
  by (induction ss) (simp_all add: int_mult_ge1)

lemma radix_value_abs_nonneg:
  "\<forall>s \<in> set ss. 0 \<le> s \<Longrightarrow> 0 \<le> radix_value (map abs cs) ss"
proof (induction cs arbitrary: ss)
  case Nil
  show ?case by simp
next
  case (Cons c cs)
  show ?case
  proof (cases ss)
    case Nil
    then show ?thesis by simp
  next
    case (Cons s ss')
    then have "0 \<le> s" "0 \<le> radix_value (map abs cs) ss'"
      using Cons.prems Cons.IH [of ss'] by simp_all
    then show ?thesis using Cons by simp
  qed
qed

subsection \<open>The loops on integers that stay within \<open>2^53\<close>\<close>

lemma coordsFromIndex_map_exact:
  "\<forall>s \<in> set ss. 1 \<le> s \<Longrightarrow> 0 \<le> i \<Longrightarrow> i \<le> 2 ^ 53 \<Longrightarrow>
   coordsFromIndex_map (D i) (map D ss) = map D (radix_digits i ss)"
proof (induction ss arbitrary: i)
  case Nil
  then show ?case by simp
next
  case (Cons s ss)
  have pos: "0 < s" using Cons.prems(1) by simp
  have m: "0 \<le> i mod s" "i mod s \<le> i"
    using pos Cons.prems(2) by (simp_all add: zmod_le_nonneg_dividend)
  have coord: "d_rem (D i) (D s) = D (i mod s)"
    using Cons.prems(2) pos by (rule d_rem_D)
  have "\<bar>i - i mod s\<bar> \<le> 2 ^ 53" using m Cons.prems(3) by simp
  then have sub: "d_sub (D i) (D (i mod s)) = D (i - i mod s)"
    by (intro d_sub_D) simp_all
  have "0 \<le> i - i mod s" "i - i mod s \<le> 2 ^ 53" "s dvd i - i mod s"
    using m Cons.prems(3) by (simp_all add: dvd_minus_mod)
  then have "d_div (D (i - i mod s)) (D s) = D ((i - i mod s) div s)"
    using pos by (intro d_div_D)
  moreover have "(i - i mod s) div s = i div s"
    by (simp add: minus_mod_eq_mult_div)
  ultimately have next': "d_div (d_sub (D i) (D (i mod s))) (D s) = D (i div s)"
    using sub by simp
  have "0 \<le> i div s"
    using Cons.prems(2) pos by (simp add: pos_imp_zdiv_nonneg_iff)
  moreover have "i div s \<le> i div 1"
    using Cons.prems(2) pos by (intro zdiv_mono2) simp_all
  then have "i div s \<le> 2 ^ 53" using Cons.prems(3) by simp
  moreover have "\<forall>t \<in> set ss. 1 \<le> t" using Cons.prems(1) by simp
  ultimately have "coordsFromIndex_map (D (i div s)) (map D ss) = map D (radix_digits (i div s) ss)"
    using Cons.IH by blast
  then show ?case
    by (simp add: coord next')
qed

lemma coordsToIndex_loop_exact:
  "length cs = length ss \<Longrightarrow> \<forall>s \<in> set ss. 1 \<le> s \<Longrightarrow> 1 \<le> f \<Longrightarrow>
   \<bar>r\<bar> + f * radix_value (map abs cs) ss \<le> 2 ^ 53 \<Longrightarrow> f * prod_list ss \<le> 2 ^ 53 \<Longrightarrow>
   coordsToIndex_loop (D f) (D r) (map D cs) (map D ss) = D (r + f * radix_value cs ss)"
proof (induction cs ss arbitrary: f r rule: list_induct2)
  case Nil
  then show ?case by simp
next
  case (Cons c cs s ss)
  have s: "1 \<le> s" and rest: "\<forall>t \<in> set ss. 1 \<le> t" using Cons.prems(1) by simp_all
  have rv: "0 \<le> radix_value (map abs cs) ss"
    using rest by (intro radix_value_abs_nonneg) auto
  have p: "1 \<le> prod_list ss"
    using rest by (rule prod_list_ge1)
  have expand: "f * radix_value (map abs (c # cs)) (s # ss)
                = f * \<bar>c\<bar> + f * s * radix_value (map abs cs) ss"
    by (simp add: algebra_simps)
  have nn: "0 \<le> f * s * radix_value (map abs cs) ss"
    using Cons.prems(2) s rv by simp
  have fc: "\<bar>f * c\<bar> = f * \<bar>c\<bar>" using Cons.prems(2) by (simp add: abs_mult)
  have b1: "\<bar>f * c\<bar> \<le> 2 ^ 53"
    using Cons.prems(3) nn unfolding expand fc by linarith
  have b2: "\<bar>r + f * c\<bar> \<le> 2 ^ 53"
    using Cons.prems(3) nn fc unfolding expand by linarith
  have "f * s * 1 \<le> f * s * prod_list ss"
    using Cons.prems(2) s p by (intro mult_left_mono) simp_all
  then have b3: "f * s \<le> 2 ^ 53"
    using Cons.prems(4) by (simp add: mult.assoc)
  have prod: "int_val (d_mul (D f) (D c)) (f * c)"
    using b1 by (intro d_mul_int) simp_all
  have res: "d_add (D r) (d_mul (D f) (D c)) = D (r + f * c)"
    using prod b2 by (rule d_add_D)
  have factor: "d_mul (D f) (D s) = D (f * s)"
    using Cons.prems(2) s b3 by (intro d_mul_D) simp_all
  have "\<bar>r + f * c\<bar> + f * s * radix_value (map abs cs) ss \<le> 2 ^ 53"
    using Cons.prems(3) fc unfolding expand by linarith
  moreover have "f * s * prod_list ss \<le> 2 ^ 53"
    using Cons.prems(4) by (simp add: mult.assoc)
  moreover have "1 \<le> f * s" using Cons.prems(2) s by (rule int_mult_ge1)
  ultimately have "coordsToIndex_loop (D (f * s)) (D (r + f * c)) (map D cs) (map D ss)
                   = D (r + f * c + f * s * radix_value cs ss)"
    using Cons.IH rest by blast
  then show ?case
    by (simp add: res factor algebra_simps)
qed

subsection \<open>Evaluating a rounding\<close>

lemma rnd_at:
  assumes "2 powi e \<le> \<bar>x\<bar>" and "\<bar>x\<bar> < 2 powi (e + 1)" and "- 1022 \<le> e"
  shows "rnd x =
     (let r = of_int (round_even (x / 2 powi (e - 52))) * 2 powi (e - 52)
      in if 2 powi 1024 \<le> \<bar>r\<bar> then inf_of (x < 0)
         else if r = 0 then zero_of (x < 0)
         else Fin r)"
  using assms(3) by (simp add: rnd_def rnd_real_eval [OF assms(1,2)] max_def)

lemma rnd_exact_int:
  assumes "x = of_int k" and "\<bar>k\<bar> \<le> 2 ^ 53" and "k \<noteq> 0"
  shows "rnd x = Fin x"
  using rnd_int [OF assms(2,3)] assms(1) by simp

lemma c1_r1: "rnd 9007199254740993 = Fin 9007199254740992"
  using rnd_at [of 53 9007199254740993] by (simp add: round_even_def)

lemma c1_r2: "rnd (9007199254740992 / 3) = Fin (6004799503160661 / 2)"
  using rnd_at [of 51 "9007199254740992 / 3"] by (simp add: round_even_def)

lemma c1_r3: "rnd (18014398509481983 / 2) = Fin 9007199254740992"
  using rnd_at [of 52 "18014398509481983 / 2"] by (simp add: round_even_def)

lemma c1_r4: "rnd 13510798882111488 = Fin 13510798882111488"
  using rnd_at [of 53 13510798882111488] by (simp add: round_even_def)

lemma rnd_small: "rnd 1 = Fin 1" "rnd 3 = Fin 3"
  using rnd_exact_int [of 1 1] rnd_exact_int [of 3 3] by simp_all

lemma c1_from: "coordsFromIndex (D 9007199254740994) (map D [4503599627370496, 3])
   = [Fin (6004799503160661 / 2), Fin 1]"
  by (simp add: coordsFromIndex_def D_def d_rem_def d_sub_def d_add_def d_div_def trunc_def
      zero_of_def c1_r1 c1_r2 Let_def)

lemma c1_to: "coordsToIndex [Fin (6004799503160661 / 2), Fin 1] (map D [4503599627370496, 3])
   = Inr (Fin 9007199254740992)"
  by (simp add: coordsToIndex_def D_def d_mul_def d_add_def zero_of_def rnd_small c1_r1 c1_r3 c1_r4)

lemma c2_r1: "rnd 9007199254740992 = Fin 9007199254740992"
  using rnd_exact_int [of 9007199254740992 9007199254740992] by simp

lemma c10_r1: "rnd (2 ^ 1000) = Fin (2 ^ 1000)"
  using rnd_at [of 1000 "2 ^ 1000"] by (simp add: round_even_def)

lemma c10_r2: "rnd (2 ^ 2000) = PosInf"
  using rnd_at [of 2000 "2 ^ 2000"] by (simp add: round_even_def inf_of_def)

subsection \<open>The two conversions on integer tuples\<close>

lemma coordsFromIndex_exact:
  assumes "\<forall>s \<in> set sizes. 1 \<le> s" and "0 \<le> i" and "i \<le> 2 ^ 53"
  shows "coordsFromIndex (D i) (map D sizes) = map D (rev (radix_digits i (rev sizes)))"
proof -
  have "\<forall>s \<in> set (rev sizes). 1 \<le> s" using assms(1) by simp
  then have "coordsFromIndex_map (D i) (map D (rev sizes)) = map D (radix_digits i (rev sizes))"
    using assms(2,3) by (rule coordsFromIndex_map_exact)
  then show ?thesis by (simp add: coordsFromIndex_def rev_map)
qed

lemma coordsToIndex_exact:
  assumes "length cs = length ss" and "\<forall>s \<in> set ss. 1 \<le> s"
    and "prod_list ss \<le> 2 ^ 53" and "radix_value (map abs (rev cs)) (rev ss) \<le> 2 ^ 53"
  shows "coordsToIndex (map D cs) (map D ss) = Inr (D (radix_value (rev cs) (rev ss)))"
proof -
  have "coordsToIndex_loop (D 1) (D 0) (map D (rev cs)) (map D (rev ss))
        = D (0 + 1 * radix_value (rev cs) (rev ss))"
    using assms by (intro coordsToIndex_loop_exact) (simp_all add: prod_list.rev)
  then show ?thesis
    using assms(1) by (simp add: coordsToIndex_def rev_map D_def)
qed

lemma valid_abs:
  "list_all2 (\<lambda>c s. 0 \<le> c \<and> c < s) cs ss \<Longrightarrow> map abs cs = (cs :: int list)"
  by (induction cs ss rule: list_all2_induct) auto

lemma valid_sizes: "list_all2 (\<lambda>c s. 0 \<le> c \<and> c < s) cs ss \<Longrightarrow> \<forall>s \<in> set ss. (1::int) \<le> s"
  by (induction cs ss rule: list_all2_induct) auto

lemma coordsToIndex_valid:
  assumes "list_all2 (\<lambda>c s. 0 \<le> c \<and> c < s) cs ss" and "prod_list ss \<le> 2 ^ 53"
  shows "coordsToIndex (map D cs) (map D ss) = Inr (D (radix_value (rev cs) (rev ss)))"
proof -
  have r: "list_all2 (\<lambda>c s. 0 \<le> c \<and> c < s) (rev cs) (rev ss)"
    using assms(1) by (simp add: list_all2_rev)
  have "radix_value (rev cs) (rev ss) < prod_list (rev ss)"
    using r by (rule radix_value_less)
  then have "radix_value (map abs (rev cs)) (rev ss) \<le> 2 ^ 53"
    using assms(2) by (simp add: valid_abs [OF r] prod_list.rev)
  then show ?thesis
    using assms list_all2_lengthD [OF assms(1)] valid_sizes [OF assms(1)]
    by (intro coordsToIndex_exact)
qed

lemma checkCoords_loop_ok:
  "length coords = length sizes \<Longrightarrow>
   checkCoords_loop (map D coords) (map D sizes) = Inr () \<longleftrightarrow>
     list_all2 (\<lambda>c s. 0 \<le> c \<and> c < s) coords sizes"
proof (induction coords sizes rule: list_induct2)
  case Nil
  then show ?case by simp
next
  case (Cons c cs s ss)
  have "d_lt (D c) (Fin 0) \<longleftrightarrow> c < 0"
    using d_lt_D [of c 0] by (simp add: D_def)
  then show ?case using Cons.IH by auto
qed

lemma checkCoordsSizesCompability_ok:
  "checkCoordsSizesCompability (map D coords) (map D sizes) = Inr () \<longleftrightarrow>
     list_all2 (\<lambda>c s. 0 \<le> c \<and> c < s) coords sizes"
  by (auto simp: checkCoordsSizesCompability_def checkCoords_loop_ok
      dest: list_all2_lengthD)

subsection \<open>Round trips\<close>

text \<open>
  C1, as amended. For every tuple of integer sizes, all at least 1, whose product is
  at most \<open>2^53\<close>, and every integer index in \<open>[0, product(sizes))\<close>,
  \<open>coordsToIndex(coordsFromIndex(index, sizes), sizes)\<close> is the index.
\<close>

theorem coordsToIndex_coordsFromIndex:
  assumes "\<forall>s \<in> set sizes. 1 \<le> s" and "prod_list sizes \<le> 2 ^ 53"
    and "0 \<le> index" and "index < prod_list sizes"
  shows "coordsToIndex (coordsFromIndex (D index) (map D sizes)) (map D sizes)
         = Inr (D index)"
proof -
  have pos: "\<forall>s \<in> set (rev sizes). 1 \<le> s" using assms(1) by simp
  have lt: "index < prod_list (rev sizes)" using assms(4) by (simp add: prod_list.rev)
  have digits: "list_all2 (\<lambda>c s. 0 \<le> c \<and> c < s) (radix_digits index (rev sizes)) (rev sizes)"
    and v: "radix_value (radix_digits index (rev sizes)) (rev sizes) = index"
    using radix_value_digits [OF pos assms(3) lt] by simp_all
  have "list_all2 (\<lambda>c s. 0 \<le> c \<and> c < s) (rev (radix_digits index (rev sizes))) sizes"
    using digits by (metis list_all2_rev rev_rev_ident)
  then have "coordsToIndex (map D (rev (radix_digits index (rev sizes)))) (map D sizes)
             = Inr (D index)"
    using assms(2) v by (simp add: coordsToIndex_valid)
  moreover have "coordsFromIndex (D index) (map D sizes)
                 = map D (rev (radix_digits index (rev sizes)))"
    using assms by (intro coordsFromIndex_exact) simp_all
  ultimately show ?thesis by simp
qed

theorem coordsToIndex_coordsFromIndex_witness:
  "coordsToIndex (coordsFromIndex (D 5) (map D [2, 3])) (map D [2, 3]) = Inr (D 5)
   \<and> coordsFromIndex (D 5) (map D [2, 3]) = map D [1, 2]"
proof -
  have "\<forall>s \<in> set [2, 3 :: int]. 1 \<le> s" by simp
  moreover have "prod_list [2, 3 :: int] \<le> 2 ^ 53" by simp
  moreover have "(0::int) \<le> 5" by simp
  moreover have "(5::int) < prod_list [2, 3]" by simp
  ultimately have "coordsToIndex (coordsFromIndex (D 5) (map D [2, 3])) (map D [2, 3])
     = Inr (D 5)"
    by (rule coordsToIndex_coordsFromIndex)
  moreover have "coordsFromIndex (D 5) (map D [2, 3]) = map D [1, 2]"
    using coordsFromIndex_exact [of "[2, 3]" 5] by simp
  ultimately show ?thesis by simp
qed

theorem coordsToIndex_coordsFromIndex_counterexample:
  "(1::int) \<le> 2 ^ 52 \<and> (1::int) \<le> 3 \<and> (0::int) \<le> 2 ^ 53 + 2
   \<and> (2 ^ 53 + 2 :: int) < prod_list [2 ^ 52, 3]
   \<and> is_double (2 ^ 53 + 2) \<and> is_double (2 ^ 52) \<and> is_double 3
   \<and> coordsFromIndex (D (2 ^ 53 + 2)) (map D [2 ^ 52, 3])
       = [Fin (3002399751580330 + 1 / 2), Fin 1]
   \<and> coordsToIndex (coordsFromIndex (D (2 ^ 53 + 2)) (map D [2 ^ 52, 3])) (map D [2 ^ 52, 3])
       = Inr (D (2 ^ 53))
   \<and> D (2 ^ 53) \<noteq> D (2 ^ 53 + 2)"
proof -
  have d1: "is_double (2 ^ 53 + 2)"
    using rnd_real_eval [of 53 "2 ^ 53 + 2"] by (simp add: is_double_def round_even_def)
  have d2: "is_double (2 ^ 52)"
    using rnd_real_int [of "2 ^ 52"] by (simp add: is_double_def)
  have d3: "is_double 3"
    using rnd_real_int [of 3] by (simp add: is_double_def)
  have "coordsFromIndex (D (2 ^ 53 + 2)) (map D [2 ^ 52, 3])
        = [Fin (3002399751580330 + 1 / 2), Fin 1]"
    using c1_from by simp
  moreover have "coordsToIndex [Fin (3002399751580330 + 1 / 2), Fin 1] (map D [2 ^ 52, 3])
        = Inr (D (2 ^ 53))"
    using c1_to by (simp add: D_def)
  ultimately show ?thesis
    using d1 d2 d3 by (simp add: D_def)
qed

text \<open>
  C2, as amended. For every pair of integer tuples that \<open>checkCoordsSizesCompability\<close>
  accepts (equal length, every component with \<open>0 \<le> coords[i] < sizes[i]\<close>) and whose
  sizes have a product of at most \<open>2^53\<close>, \<open>coordsToIndex\<close> returns an index, and
  \<open>coordsFromIndex\<close> of that index and the sizes is the coordinate tuple again.
\<close>

theorem coordsFromIndex_coordsToIndex:
  assumes "checkCoordsSizesCompability (map D coords) (map D sizes) = Inr ()"
    and "prod_list sizes \<le> 2 ^ 53"
  shows "\<exists>index. coordsToIndex (map D coords) (map D sizes) = Inr index
           \<and> coordsFromIndex index (map D sizes) = map D coords"
proof -
  define v where "v = radix_value (rev coords) (rev sizes)"
  have all2: "list_all2 (\<lambda>c s. 0 \<le> c \<and> c < s) coords sizes"
    using assms(1) by (simp add: checkCoordsSizesCompability_ok)
  then have r: "list_all2 (\<lambda>c s. 0 \<le> c \<and> c < s) (rev coords) (rev sizes)"
    by (simp add: list_all2_rev)
  have to: "coordsToIndex (map D coords) (map D sizes) = Inr (D v)"
    using all2 assms(2) unfolding v_def by (rule coordsToIndex_valid)
  have "0 \<le> v" unfolding v_def using r by (rule radix_value_nonneg)
  moreover have "v < prod_list (rev sizes)" unfolding v_def using r by (rule radix_value_less)
  then have "v \<le> 2 ^ 53" using assms(2) by (simp add: prod_list.rev)
  ultimately have "coordsFromIndex (D v) (map D sizes) = map D (rev (radix_digits v (rev sizes)))"
    using valid_sizes [OF all2] by (intro coordsFromIndex_exact)
  moreover have "radix_digits v (rev sizes) = rev coords"
    unfolding v_def using r by (rule radix_digits_value)
  ultimately have "coordsFromIndex (D v) (map D sizes) = map D coords" by simp
  then show ?thesis using to by blast
qed

theorem coordsFromIndex_coordsToIndex_witness:
  "checkCoordsSizesCompability (map D [1, 2]) (map D [2, 3]) = Inr ()
   \<and> coordsToIndex (map D [1, 2]) (map D [2, 3]) = Inr (D 5)
   \<and> coordsFromIndex (D 5) (map D [2, 3]) = map D [1, 2]"
proof -
  have ok: "checkCoordsSizesCompability (map D [1, 2]) (map D [2, 3]) = Inr ()"
    using checkCoordsSizesCompability_ok [of "[1, 2]" "[2, 3]"] by simp
  have p: "prod_list [2, 3 :: int] \<le> 2 ^ 53" by simp
  have idx: "coordsToIndex (map D [1, 2]) (map D [2, 3]) = Inr (D 5)"
    using coordsToIndex_valid [of "[1, 2]" "[2, 3]"] by simp
  show ?thesis
    using ok idx coordsFromIndex_coordsToIndex [OF ok p] by simp
qed

theorem coordsFromIndex_coordsToIndex_counterexample:
  "checkCoordsSizesCompability (map D [1, 1]) (map D [2, 2 ^ 53]) = Inr ()
   \<and> is_double 1 \<and> is_double 2 \<and> is_double (2 ^ 53)
   \<and> coordsToIndex (map D [1, 1]) (map D [2, 2 ^ 53]) = Inr (D (2 ^ 53))
   \<and> coordsFromIndex (D (2 ^ 53)) (map D [2, 2 ^ 53]) = map D [1, 0]
   \<and> map D [1, 0] \<noteq> map D [1, 1]"
proof -
  have d: "is_double 1" "is_double 2" "is_double (2 ^ 53)"
    using rnd_real_int [of 1] rnd_real_int [of 2] rnd_real_int [of "2 ^ 53"]
    by (simp_all add: is_double_def)
  have ok: "checkCoordsSizesCompability (map D [1, 1]) (map D [2, 2 ^ 53]) = Inr ()"
    using checkCoordsSizesCompability_ok [of "[1, 1]" "[2, 2 ^ 53]"] by simp
  have to: "coordsToIndex (map D [1, 1]) (map D [2, 2 ^ 53]) = Inr (D (2 ^ 53))"
    by (simp add: coordsToIndex_def D_def d_mul_def d_add_def zero_of_def rnd_small c1_r1 c2_r1)
  have "coordsFromIndex (D (2 ^ 53)) (map D [2, 2 ^ 53]) = map D [1, 0]"
    by (simp add: coordsFromIndex_def D_def d_rem_def d_sub_def d_add_def d_div_def trunc_def
        zero_of_def rnd_small c2_r1 Let_def)
  then show ?thesis
    using d ok to by (simp add: D_def)
qed

text \<open>
  C10, as amended. For tuples of equal length \<open>coordsToIndex\<close> returns a number,
  whatever the coordinates are (negative, or not below the size): it makes no bounds
  check, and it fails exactly on a length mismatch. The number is the exact integer
  mixed-radix sum when the tuples are integer tuples with sizes at least 1 and
  neither the product of the sizes nor the sum with the coordinates' absolute values
  exceeds \<open>2^53\<close>; beyond that it can be rounded, infinite or \<^verbatim>\<open>NaN\<close>.
\<close>

theorem coordsToIndex_fails_only_on_length:
  "(coordsToIndex coords sizes = Inl LengthMismatch \<longleftrightarrow> length coords \<noteq> length sizes)
   \<and> (\<forall>e. coordsToIndex coords sizes = Inl e \<longrightarrow> e = LengthMismatch)
   \<and> (length coords = length sizes \<longrightarrow> (\<exists>v. coordsToIndex coords sizes = Inr v))
   \<and> (length cs = length ss \<and> (\<forall>s \<in> set ss. 1 \<le> s) \<and> prod_list ss \<le> 2 ^ 53
        \<and> radix_value (map abs (rev cs)) (rev ss) \<le> 2 ^ 53 \<longrightarrow>
        coordsToIndex (map D cs) (map D ss) = Inr (D (radix_value (rev cs) (rev ss))))"
proof (intro conjI allI impI)
  show "coordsToIndex coords sizes = Inl LengthMismatch \<longleftrightarrow> length coords \<noteq> length sizes"
    by (simp add: coordsToIndex_def)
  show "e = LengthMismatch" if "coordsToIndex coords sizes = Inl e" for e
    using that by (simp add: coordsToIndex_def split: if_splits)
  show "\<exists>v. coordsToIndex coords sizes = Inr v" if "length coords = length sizes"
    using that by (simp add: coordsToIndex_def)
  show "coordsToIndex (map D cs) (map D ss) = Inr (D (radix_value (rev cs) (rev ss)))"
    if "length cs = length ss \<and> (\<forall>s \<in> set ss. 1 \<le> s) \<and> prod_list ss \<le> 2 ^ 53
        \<and> radix_value (map abs (rev cs)) (rev ss) \<le> 2 ^ 53"
    using that by (intro coordsToIndex_exact) simp_all
qed

theorem coordsToIndex_fails_only_on_length_witness:
  "coordsToIndex (map D [- 1, 7]) (map D [2, 3]) = Inr (D 4)
   \<and> coordsToIndex (map D [1]) (map D [2, 3]) = Inl LengthMismatch"
proof -
  have "length [- 1, 7 :: int] = length [2, 3 :: int] \<and> (\<forall>s \<in> set [2, 3 :: int]. 1 \<le> s)
        \<and> prod_list [2, 3 :: int] \<le> 2 ^ 53
        \<and> radix_value (map abs (rev [- 1, 7])) (rev [2, 3]) \<le> 2 ^ 53"
    by simp
  then have "coordsToIndex (map D [- 1, 7]) (map D [2, 3])
             = Inr (D (radix_value (rev [- 1, 7]) (rev [2, 3])))"
    using coordsToIndex_fails_only_on_length [of "[]" "[]" "[- 1, 7]" "[2, 3]"] by blast
  moreover have "length (map D [1]) \<noteq> length (map D [2, 3])" by simp
  then have "coordsToIndex (map D [1]) (map D [2, 3]) = Inl LengthMismatch"
    using coordsToIndex_fails_only_on_length [of "map D [1]" "map D [2, 3]" "[]" "[]"] by blast
  ultimately show ?thesis by simp
qed

theorem coordsToIndex_fails_only_on_length_counterexample:
  "length (map D [0, 0, 0]) = length (map D [2 ^ 1000, 2 ^ 1000, 2 ^ 1000])
   \<and> is_double 0 \<and> is_double (2 ^ 1000)
   \<and> coordsToIndex (map D [0, 0, 0]) (map D [2 ^ 1000, 2 ^ 1000, 2 ^ 1000]) = Inr NotANumber"
proof -
  have d0: "is_double 0" by (simp add: is_double_def)
  have d: "is_double (2 ^ 1000)"
    using rnd_real_eval [of 1000 "2 ^ 1000"] by (simp add: is_double_def round_even_def)
  have "coordsToIndex (map D [0, 0, 0]) (map D [2 ^ 1000, 2 ^ 1000, 2 ^ 1000]) = Inr NotANumber"
    by (simp add: coordsToIndex_def D_def d_mul_def d_add_def zero_of_def
        c10_r1 [simplified] c10_r2 [simplified])
  then show ?thesis using d0 d by simp
qed

subsection \<open>isPermutation\<close>

lemma length_arr_set: "length a \<le> length (arr_set a x v)"
  by (simp add: arr_set_def)

lemma nth_arr_set:
  "k < length a \<Longrightarrow> arr_set a x v ! k = (if x = int k then v else a ! k)"
  by (auto simp: arr_set_def nth_append nth_list_update)

lemma length_arr_set_inside:
  "0 \<le> x \<Longrightarrow> x < int (length a) \<Longrightarrow> length (arr_set a x v) = length a"
  by (simp add: arr_set_def)

lemma length_count_step: "length cs \<le> length (count_step cs x)"
  by (simp add: count_step_def length_arr_set)

lemma nth_count_step:
  "k < length cs \<Longrightarrow>
   count_step cs x ! k = (if x = int k then js_add1 (cs ! k) else cs ! k)"
  by (simp add: count_step_def nth_arr_set arr_get_def)

lemma length_foldl_count_step: "length cs \<le> length (foldl count_step cs xs)"
proof (induction xs arbitrary: cs)
  case Nil
  show ?case by simp
next
  case (Cons x xs)
  have "length cs \<le> length (count_step cs x)" by (rule length_count_step)
  also have "\<dots> \<le> length (foldl count_step (count_step cs x) xs)" by (rule Cons.IH)
  finally show ?case by simp
qed

lemma nth_foldl_count_step:
  "k < length cs \<Longrightarrow> cs ! k = Num c \<Longrightarrow>
   foldl count_step cs xs ! k = Num (c + int (count_list xs (int k)))"
proof (induction xs arbitrary: cs c)
  case Nil
  then show ?case by simp
next
  case (Cons x xs)
  have k: "k < length (count_step cs x)"
    using Cons.prems(1) length_count_step [of cs x] by simp
  have v: "count_step cs x ! k = Num (if x = int k then c + 1 else c)"
    using Cons.prems by (simp add: nth_count_step)
  show ?case
    using Cons.IH [OF k v] by simp
qed

lemma length_foldl_count_step_inside:
  "\<forall>x \<in> set xs. 0 \<le> x \<and> x < int (length cs) \<Longrightarrow>
   length (foldl count_step cs xs) = length cs"
proof (induction xs arbitrary: cs)
  case Nil
  show ?case by simp
next
  case (Cons x xs)
  have l: "length (count_step cs x) = length cs"
    using Cons.prems by (simp add: count_step_def length_arr_set_inside)
  show ?case
    using Cons.IH [of "count_step cs x"] Cons.prems l by simp
qed

lemma nth_isPermutation_counts:
  "k < length array \<Longrightarrow>
   isPermutation_counts array ! k = Num (int (count_list array (int k)))"
  using nth_foldl_count_step [of k "replicate (length array) (Num 0)" 0 array]
  by (simp add: isPermutation_counts_def)

lemma length_isPermutation_counts: "length array \<le> length (isPermutation_counts array)"
  using length_foldl_count_step [of "replicate (length array) (Num 0)" array]
  by (simp add: isPermutation_counts_def)

lemma length_isPermutation_counts_inside:
  "\<forall>x \<in> set array. 0 \<le> x \<and> x < int (length array) \<Longrightarrow>
   length (isPermutation_counts array) = length array"
  using length_foldl_count_step_inside [of array "replicate (length array) (Num 0)"]
  by (simp add: isPermutation_counts_def)

text \<open>A list as long as a set it covers lists that set, each element once.\<close>

lemma covering_list:
  assumes sub: "S \<subseteq> set xs" and card: "card S = length xs"
  shows "distinct xs \<and> set xs = S"
proof -
  have "card (set xs) \<le> card S"
    using card card_length [of xs] by simp
  then have eq: "S = set xs"
    using sub by (simp add: card_seteq)
  then have "card (set xs) = length xs" using card by simp
  then have "distinct xs" by (rule card_distinct)
  then show ?thesis using eq by simp
qed

lemma count_list_distinct:
  "distinct xs \<Longrightarrow> x \<in> set xs \<Longrightarrow> count_list xs x = 1"
  by (induction xs) auto

lemma every_counts_iff:
  "list_all truthy (isPermutation_counts array) \<longleftrightarrow>
   distinct array \<and> set array = {0..<int (length array)}"
proof
  assume every: "list_all truthy (isPermutation_counts array)"
  have "{0..<int (length array)} \<subseteq> set array"
  proof
    fix x assume "x \<in> {0..<int (length array)}"
    then have x: "0 \<le> x" "nat x < length array" by auto
    then have "nat x < length (isPermutation_counts array)"
      using length_isPermutation_counts [of array] by simp
    then have "truthy (isPermutation_counts array ! nat x)"
      using every by (simp add: list_all_length)
    then have "count_list array x \<noteq> 0"
      using x by (simp add: nth_isPermutation_counts)
    then show "x \<in> set array" by (simp add: count_list_0_iff)
  qed
  then show "distinct array \<and> set array = {0..<int (length array)}"
    by (rule covering_list) simp
next
  assume perm: "distinct array \<and> set array = {0..<int (length array)}"
  then have "\<forall>x \<in> set array. 0 \<le> x \<and> x < int (length array)" by simp
  then have len: "length (isPermutation_counts array) = length array"
    by (rule length_isPermutation_counts_inside)
  have "truthy (isPermutation_counts array ! k)" if "k < length array" for k
  proof -
    have "int k \<in> set array" using perm that by simp
    then have "count_list array (int k) = 1"
      using perm by (simp add: count_list_distinct)
    then show ?thesis using that by (simp add: nth_isPermutation_counts)
  qed
  then show "list_all truthy (isPermutation_counts array)"
    using len by (simp add: list_all_length)
qed

lemma isPermutation_iff:
  "isPermutation array n_arg \<longleftrightarrow>
   (case n_arg of None \<Rightarrow> True | Some n \<Rightarrow> int (length array) = n)
   \<and> distinct array \<and> set array = {0..<int (length array)}"
  by (auto simp: isPermutation_def every_counts_iff split: option.splits)

lemma once_each_iff:
  "(\<forall>k. 0 \<le> k \<and> k < int (length array) \<longrightarrow> count_list array k = 1) \<longleftrightarrow>
   distinct array \<and> set array = {0..<int (length array)}"
proof
  assume once: "\<forall>k. 0 \<le> k \<and> k < int (length array) \<longrightarrow> count_list array k = 1"
  have "{0..<int (length array)} \<subseteq> set array"
  proof
    fix x assume "x \<in> {0..<int (length array)}"
    then have "count_list array x = 1" using once by simp
    then show "x \<in> set array" by (metis count_list_0_iff zero_neq_one)
  qed
  then show "distinct array \<and> set array = {0..<int (length array)}"
    by (rule covering_list) simp
next
  assume "distinct array \<and> set array = {0..<int (length array)}"
  then show "\<forall>k. 0 \<le> k \<and> k < int (length array) \<longrightarrow> count_list array k = 1"
    by (simp add: count_list_distinct)
qed

text \<open>
  C4. \<open>isPermutation(array, n)\<close> is true if and only if the array has length \<open>n\<close> and
  each of \<open>0, \<dots>, n - 1\<close> occurs in it exactly once; with \<open>n\<close> left out, if and only
  if each of \<open>0, \<dots>, length - 1\<close> occurs exactly once.
\<close>

theorem isPermutation_correct:
  "(isPermutation array (Some n) \<longleftrightarrow>
      int (length array) = n \<and> (\<forall>k. 0 \<le> k \<and> k < n \<longrightarrow> count_list array k = 1))
   \<and> (isPermutation array None \<longleftrightarrow>
      (\<forall>k. 0 \<le> k \<and> k < int (length array) \<longrightarrow> count_list array k = 1))"
proof -
  have "isPermutation array (Some n) \<longleftrightarrow>
        int (length array) = n \<and> distinct array \<and> set array = {0..<int (length array)}"
    by (simp add: isPermutation_iff)
  also have "\<dots> \<longleftrightarrow>
        int (length array) = n \<and> (\<forall>k. 0 \<le> k \<and> k < n \<longrightarrow> count_list array k = 1)"
    using once_each_iff [of array] by blast
  finally have some: "isPermutation array (Some n) \<longleftrightarrow>
        int (length array) = n \<and> (\<forall>k. 0 \<le> k \<and> k < n \<longrightarrow> count_list array k = 1)" .
  have none: "isPermutation array None \<longleftrightarrow>
        (\<forall>k. 0 \<le> k \<and> k < int (length array) \<longrightarrow> count_list array k = 1)"
    using once_each_iff [of array] by (simp add: isPermutation_iff)
  show ?thesis using some none by (rule conjI)
qed

theorem isPermutation_correct_witness:
  "isPermutation [1, 0] (Some 2) \<and> \<not> isPermutation [1, 1] (Some 2)
   \<and> \<not> isPermutation [1, 0] (Some 3)"
proof -
  have once: "\<forall>k::int. 0 \<le> k \<and> k < 2 \<longrightarrow> count_list [1, 0] k = 1"
  proof (intro allI impI)
    fix k :: int
    assume "0 \<le> k \<and> k < 2"
    then have "k = 0 \<or> k = 1" by arith
    then show "count_list [1, 0] k = 1" by auto
  qed
  have "isPermutation [1, 0] (Some 2)"
    using once isPermutation_correct [of "[1, 0]" 2] by simp
  moreover have "\<not> (\<forall>k::int. 0 \<le> k \<and> k < 2 \<longrightarrow> count_list [1, 1] k = 1)"
    by (auto intro: exI [of _ 0])
  then have "\<not> isPermutation [1, 1] (Some 2)"
    using isPermutation_correct [of "[1, 1]" 2] by blast
  moreover have "\<not> isPermutation [1, 0] (Some 3)"
    using isPermutation_correct [of "[1, 0]" 3] by simp
  ultimately show ?thesis by simp
qed

text \<open>
  C9. An array with a value below 0 or not below its length, or with a value twice,
  is no permutation: \<open>isPermutation(array)\<close> returns false (the model has no failing
  branch, as the source has none), and one of the buckets \<open>0, \<dots>, length - 1\<close> of
  \<open>counts\<close> is still \<open>0\<close> at the end.
\<close>

theorem isPermutation_rejects:
  assumes "(\<exists>x \<in> set array. x < 0 \<or> int (length array) \<le> x) \<or> \<not> distinct array"
  shows "\<not> isPermutation array None
         \<and> (\<exists>k < length array. isPermutation_counts array ! k = Num 0)"
proof -
  have no: "\<not> (distinct array \<and> set array = {0..<int (length array)})"
    using assms by auto
  then have first: "\<not> isPermutation array None"
    by (simp add: isPermutation_iff)
  have "\<not> {0..<int (length array)} \<subseteq> set array"
  proof
    assume "{0..<int (length array)} \<subseteq> set array"
    then have "distinct array \<and> set array = {0..<int (length array)}"
      by (rule covering_list) simp
    then show False using no by simp
  qed
  then have "\<exists>x. x \<in> {0..<int (length array)} \<and> x \<notin> set array"
    by blast
  then obtain x where x: "0 \<le> x" "x < int (length array)" "x \<notin> set array"
    by auto
  then have "nat x < length array" by simp
  moreover have "isPermutation_counts array ! nat x = Num 0"
    using x by (simp add: nth_isPermutation_counts)
  ultimately have "\<exists>k < length array. isPermutation_counts array ! k = Num 0"
    by blast
  then show ?thesis using first by simp
qed

theorem isPermutation_rejects_witness:
  "\<not> isPermutation [1, 0, 5] None \<and> \<not> isPermutation [1, - 4, 0] None
   \<and> \<not> isPermutation [1, 1, 0] None
   \<and> isPermutation_counts [1, 0, 5] = [Num 1, Num 1, Num 0, Undefined, Undefined, NaN]"
proof -
  have "(\<exists>x \<in> set [1, 0, 5 :: int]. x < 0 \<or> int (length [1, 0, 5 :: int]) \<le> x)
        \<or> \<not> distinct [1, 0, 5 :: int]"
    by simp
  then have a: "\<not> isPermutation [1, 0, 5] None"
    using isPermutation_rejects [of "[1, 0, 5]"] by blast
  have "(\<exists>x \<in> set [1, - 4, 0 :: int]. x < 0 \<or> int (length [1, - 4, 0 :: int]) \<le> x)
        \<or> \<not> distinct [1, - 4, 0 :: int]"
    by simp
  then have b: "\<not> isPermutation [1, - 4, 0] None"
    using isPermutation_rejects [of "[1, - 4, 0]"] by blast
  have "(\<exists>x \<in> set [1, 1, 0 :: int]. x < 0 \<or> int (length [1, 1, 0 :: int]) \<le> x)
        \<or> \<not> distinct [1, 1, 0 :: int]"
    by simp
  then have c: "\<not> isPermutation [1, 1, 0] None"
    using isPermutation_rejects [of "[1, 1, 0]"] by blast
  have d: "isPermutation_counts [1, 0, 5] = [Num 1, Num 1, Num 0, Undefined, Undefined, NaN]"
    by code_simp
  show ?thesis using a b c d by simp
qed

subsection \<open>indicesComplement\<close>

lemma lodash_range_nonneg: "0 \<le> n \<Longrightarrow> set (lodash_range n) = {0..<n}"
  by (auto simp: lodash_range_def)

lemma indicesComplement_result:
  assumes "0 \<le> n" and "indicesComplement indices n = Inr res"
  shows "sorted res \<and> distinct res \<and> set res = {0..<n} - set indices"
proof -
  have res: "res = filter (\<lambda>i. i \<notin> set indices) [0..n - 1]"
    using assms by (simp add: indicesComplement_def lodash_range_def Let_def split: if_splits)
  show ?thesis
    unfolding res by (auto simp: sorted_wrt_filter)
qed

lemma indicesComplement_valid:
  assumes "0 \<le> n" and "distinct indices" and "set indices \<subseteq> {0..<n}"
  shows "indicesComplement indices n = Inr (filter (\<lambda>i. i \<notin> set indices) [0..n - 1])"
proof -
  let ?res = "filter (\<lambda>i. i \<notin> set indices) [0..n - 1]"
  have d: "distinct (indices @ ?res)"
    using assms(2) by auto
  have s: "set (indices @ ?res) = {0..<n}"
    using assms(3) by auto
  have "card (set (indices @ ?res)) = length (indices @ ?res)"
    using d by (rule distinct_card)
  then have "int (length (indices @ ?res)) = n"
    using s assms(1) by simp
  then have "isPermutation (indices @ ?res) None"
    using d s by (simp add: isPermutation_iff)
  then show ?thesis
    using assms(1) by (simp add: indicesComplement_def lodash_range_def)
qed

lemma indicesComplement_duplicates:
  "\<not> distinct indices \<Longrightarrow> indicesComplement indices n = Inl NotAPermutation"
  by (simp add: indicesComplement_def isPermutation_iff)

text \<open>
  When the call succeeds: the values of \<open>indices\<close> outside \<open>0, \<dots>, n - 1\<close> must be
  exactly the next integers \<open>n, n + 1, \<dots>\<close>, as many as there are of them. With none
  of them this is the case of valid indices; with some, the call succeeds all the
  same.
\<close>

lemma range_split:
  fixes n k :: int and out :: "int set"
  assumes "0 \<le> n" and "0 \<le> k" and "out \<inter> {0..<n} = {}"
  shows "{0..<n} \<union> out = {0..<n + k} \<longleftrightarrow> out = {n..<n + k}"
proof
  assume eq: "{0..<n} \<union> out = {0..<n + k}"
  show "out = {n..<n + k}"
  proof (rule set_eqI)
    fix x
    have "x \<in> {0..<n} \<union> out \<longleftrightarrow> x \<in> {0..<n + k}"
      using eq by simp
    moreover have "x \<in> out \<Longrightarrow> x \<notin> {0..<n}"
      using assms(3) by blast
    ultimately show "x \<in> out \<longleftrightarrow> x \<in> {n..<n + k}"
      using assms(1,2) by auto
  qed
next
  assume "out = {n..<n + k}"
  then show "{0..<n} \<union> out = {0..<n + k}"
    using assms(1,2) by auto
qed

lemma indicesComplement_succeeds_iff:
  assumes n: "0 \<le> n"
  shows "(\<exists>res. indicesComplement indices n = Inr res) \<longleftrightarrow>
         distinct indices \<and>
         set indices - {0..<n} = {n..<n + int (card (set indices - {0..<n}))}"
proof -
  define res where "res = filter (\<lambda>i. i \<notin> set indices) [0..n - 1]"
  define out where "out = set indices - {0..<n}"
  define k where "k = int (card out)"
  have ok: "(\<exists>r. indicesComplement indices n = Inr r) \<longleftrightarrow>
            isPermutation (indices @ res) None"
    using n by (auto simp: indicesComplement_def lodash_range_def Let_def res_def
        split: if_splits)
  have d: "distinct (indices @ res) \<longleftrightarrow> distinct indices"
    by (auto simp: res_def)
  have s: "set (indices @ res) = {0..<n} \<union> out"
    by (auto simp: res_def out_def)
  have disj: "out \<inter> {0..<n} = {}"
    by (auto simp: out_def)
  have len: "int (length (indices @ res)) = n + k" if di: "distinct indices"
  proof -
    have "distinct (indices @ res)" using di d by blast
    then have "card (set (indices @ res)) = length (indices @ res)"
      by (rule distinct_card)
    moreover have "finite out" by (simp add: out_def)
    then have "card ({0..<n} \<union> out) = card {0..<n} + card out"
      using disj by (intro card_Un_disjoint) auto
    ultimately have "length (indices @ res) = card {0..<n} + card out"
      using s by simp
    then show ?thesis using n by (simp add: k_def)
  qed
  have perm: "isPermutation (indices @ res) None \<longleftrightarrow>
        distinct (indices @ res) \<and> set (indices @ res) = {0..<int (length (indices @ res))}"
    by (simp only: isPermutation_iff option.case simp_thms)
  have "isPermutation (indices @ res) None \<longleftrightarrow>
        distinct indices \<and> {0..<n} \<union> out = {0..<n + k}"
  proof (cases "distinct indices")
    case True
    show ?thesis
      unfolding perm d s len [OF True] ..
  next
    case False
    then show ?thesis unfolding perm d by simp
  qed
  also have "\<dots> \<longleftrightarrow> distinct indices \<and> out = {n..<n + k}"
    using range_split [OF n _ disj, of k] by (simp add: k_def)
  finally show ?thesis
    using ok by (simp add: out_def k_def)
qed

text \<open>
  C3. The claim says \<open>indicesComplement\<close> fails whenever \<open>indices\<close> holds a value
  outside \<open>0, \<dots>, n - 1\<close>. The source tests \<^verbatim>\<open>isPermutation(indices.concat(res))\<close>
  without passing \<open>n\<close>, so the test is against the length of the concatenation:
  for \<open>indices = [2]\<close> and \<open>n = 2\<close> the concatenation \<open>[2, 0, 1]\<close> is a permutation of
  \<open>0, 1, 2\<close> and the call returns \<open>[0, 1]\<close>, although 2 is not below \<open>n\<close>. The same
  happens with more elements than \<open>n\<close>: \<open>[0, 1, 2]\<close> and \<open>n = 2\<close> return \<open>[]\<close>.
\<close>

theorem indicesComplement_accepts_out_of_range:
  "indicesComplement [2] 2 = Inr [0, 1] \<and> indicesComplement [0, 1, 2] 2 = Inr []
   \<and> \<not> set [2 :: int] \<subseteq> {0..<2} \<and> \<not> length [0, 1, 2 :: int] \<le> 2"
  by (simp add: indicesComplement_def lodash_range_def isPermutation_def
      isPermutation_counts_def count_step_def arr_set_def arr_get_def upto.simps)

subsection \<open>joinCoordsFunc\<close>

text \<open>
  A \<open>forEach_place\<close> whose keys all lie inside the array keeps its length, leaves the
  positions it has no key for alone, and, the keys being distinct, leaves each value
  at the position of its key.
\<close>

lemma length_forEach_place:
  "\<forall>x \<in> set indices. 0 \<le> x \<and> x < int (length coord) \<Longrightarrow>
   length (forEach_place coord indices i cs) = length coord"
proof (induction cs arbitrary: coord i)
  case Nil
  show ?case by simp
next
  case (Cons c cs)
  let ?coord = "if i < length indices then arr_set coord (indices ! i) (Num c) else coord"
  have l: "length ?coord = length coord"
    using Cons.prems by (simp add: length_arr_set_inside)
  have "length (forEach_place ?coord indices (Suc i) cs) = length ?coord"
    using Cons.prems l by (intro Cons.IH) simp
  then show ?case using l by simp
qed

lemma forEach_place_other:
  "\<forall>x \<in> set indices. 0 \<le> x \<and> x < int (length coord) \<Longrightarrow>
   k < length coord \<Longrightarrow> int k \<notin> set (drop i indices) \<Longrightarrow>
   forEach_place coord indices i cs ! k = coord ! k"
proof (induction cs arbitrary: coord i)
  case Nil
  show ?case by simp
next
  case (Cons c cs)
  let ?coord = "if i < length indices then arr_set coord (indices ! i) (Num c) else coord"
  have l: "length ?coord = length coord"
    using Cons.prems(1) by (simp add: length_arr_set_inside)
  have notin: "int k \<notin> set (drop (Suc i) indices)"
    using Cons.prems(3) by (metis in_set_dropD drop_drop plus_1_eq_Suc)
  have here: "i < length indices \<Longrightarrow> indices ! i \<noteq> int k"
    using Cons.prems(3) by (metis Cons_nth_drop_Suc list.set_intros(1))
  have "forEach_place ?coord indices (Suc i) cs ! k = ?coord ! k"
    using Cons.prems(1,2) l notin by (intro Cons.IH) simp_all
  also have "\<dots> = coord ! k"
    using here Cons.prems(2) by (simp add: nth_arr_set)
  finally show ?case by simp
qed

lemma forEach_place_key:
  "\<forall>x \<in> set indices. 0 \<le> x \<and> x < int (length coord) \<Longrightarrow> distinct indices \<Longrightarrow>
   i + length cs \<le> length indices \<Longrightarrow> j < length cs \<Longrightarrow>
   forEach_place coord indices i cs ! nat (indices ! (i + j)) = Num (cs ! j)"
proof (induction cs arbitrary: coord i j)
  case Nil
  then show ?case by simp
next
  case (Cons c cs)
  have i: "i < length indices" using Cons.prems(3) by simp
  let ?coord = "arr_set coord (indices ! i) (Num c)"
  have range: "0 \<le> indices ! i" "indices ! i < int (length coord)"
    using Cons.prems(1) i by simp_all
  have l: "length ?coord = length coord"
    using range by (simp add: length_arr_set_inside)
  have all: "\<forall>x \<in> set indices. 0 \<le> x \<and> x < int (length ?coord)"
    using Cons.prems(1) l by simp
  show ?case
  proof (cases j)
    case 0
    have "indices ! i \<notin> set (drop (Suc i) indices)"
      using Cons.prems(2) i
      by (metis Cons_nth_drop_Suc append_take_drop_id distinct.simps(2) distinct_append)
    then have "int (nat (indices ! i)) \<notin> set (drop (Suc i) indices)"
      using range by simp
    moreover have "nat (indices ! i) < length ?coord"
      using range l by simp
    ultimately have "forEach_place ?coord indices (Suc i) cs ! nat (indices ! i)
        = ?coord ! nat (indices ! i)"
      using all by (intro forEach_place_other) simp_all
    also have "\<dots> = Num c"
      using range by (simp add: nth_arr_set)
    finally show ?thesis using 0 i by simp
  next
    case (Suc j')
    have "forEach_place ?coord indices (Suc i) cs ! nat (indices ! (Suc i + j')) = Num (cs ! j')"
      using all Cons.prems(2,3,4) Suc by (intro Cons.IH) simp_all
    then show ?thesis using Suc i by simp
  qed
qed

lemma joinCoordsFunc_nth:
  assumes part: "distinct (selectedIndices @ complementIndices)"
    and cover: "set (selectedIndices @ complementIndices) = {0..<int n}"
    and lg: "length groupCoords = length complementIndices"
    and ls: "length selectedCoords = length selectedIndices"
  shows "length (joinCoordsFunc selectedIndices complementIndices groupCoords selectedCoords) = n"
    and "i < length complementIndices \<Longrightarrow>
         joinCoordsFunc selectedIndices complementIndices groupCoords selectedCoords
           ! nat (complementIndices ! i) = Num (groupCoords ! i)"
    and "i < length selectedIndices \<Longrightarrow>
         joinCoordsFunc selectedIndices complementIndices groupCoords selectedCoords
           ! nat (selectedIndices ! i) = Num (selectedCoords ! i)"
proof -
  let ?coord = "replicate (length selectedIndices + length complementIndices) Undefined"
  let ?coord1 = "forEach_place ?coord complementIndices 0 groupCoords"
  let ?res = "forEach_place ?coord1 selectedIndices 0 selectedCoords"
  have res: "joinCoordsFunc selectedIndices complementIndices groupCoords selectedCoords = ?res"
    by (simp add: joinCoordsFunc_def)
  have "card (set (selectedIndices @ complementIndices))
        = length (selectedIndices @ complementIndices)"
    using part by (rule distinct_card)
  then have n: "length selectedIndices + length complementIndices = n"
    using cover by simp
  have l0: "length ?coord = n" using n by simp
  have inside: "\<forall>x \<in> set (selectedIndices @ complementIndices). 0 \<le> x \<and> x < int n"
    using cover by simp
  have comp0: "\<forall>x \<in> set complementIndices. 0 \<le> x \<and> x < int (length ?coord)"
    using inside l0 by simp
  have l1: "length ?coord1 = n"
    using length_forEach_place [OF comp0] l0 by simp
  have sel1: "\<forall>x \<in> set selectedIndices. 0 \<le> x \<and> x < int (length ?coord1)"
    using inside l1 by simp
  show len: "length (joinCoordsFunc selectedIndices complementIndices groupCoords selectedCoords) = n"
    using length_forEach_place [OF sel1] l1 res by simp
  show "joinCoordsFunc selectedIndices complementIndices groupCoords selectedCoords
          ! nat (complementIndices ! i) = Num (groupCoords ! i)"
    if i: "i < length complementIndices"
  proof -
    have mem: "complementIndices ! i \<in> set complementIndices"
      using i by simp
    then have range: "0 \<le> complementIndices ! i" "complementIndices ! i < int n"
      using inside by simp_all
    have "complementIndices ! i \<notin> set selectedIndices"
      using part mem by auto
    then have "int (nat (complementIndices ! i)) \<notin> set (drop 0 selectedIndices)"
      using range by simp
    moreover have "nat (complementIndices ! i) < length ?coord1"
      using range l1 by simp
    ultimately have "?res ! nat (complementIndices ! i) = ?coord1 ! nat (complementIndices ! i)"
      using sel1 by (intro forEach_place_other)
    also have "\<dots> = Num (groupCoords ! i)"
      using forEach_place_key [OF comp0, of 0 groupCoords i] part lg i by simp
    finally show ?thesis using res by simp
  qed
  show "joinCoordsFunc selectedIndices complementIndices groupCoords selectedCoords
          ! nat (selectedIndices ! i) = Num (selectedCoords ! i)"
    if i: "i < length selectedIndices"
    using forEach_place_key [OF sel1, of 0 selectedCoords i] part ls i res by simp
qed

text \<open>
  C5. When the selected and the complement indices together list each of
  \<open>0, \<dots>, n - 1\<close> once, and the two coordinate tuples are as long as their index
  tuples, the joined tuple has length \<open>n\<close>, holds \<open>groupCoords[i]\<close> at position
  \<open>complementIndices[i]\<close> and \<open>selectedCoords[i]\<close> at position \<open>selectedIndices[i]\<close>;
  and joining the two projections of a full tuple of length \<open>n\<close> gives the tuple back.
\<close>

theorem joinCoordsFunc_correct:
  assumes part: "distinct (selectedIndices @ complementIndices)"
    and cover: "set (selectedIndices @ complementIndices) = {0..<int n}"
  shows "(\<forall>groupCoords selectedCoords.
            length groupCoords = length complementIndices
            \<and> length selectedCoords = length selectedIndices \<longrightarrow>
            length (joinCoordsFunc selectedIndices complementIndices groupCoords selectedCoords) = n
            \<and> (\<forall>i < length complementIndices.
                 joinCoordsFunc selectedIndices complementIndices groupCoords selectedCoords
                   ! nat (complementIndices ! i) = Num (groupCoords ! i))
            \<and> (\<forall>i < length selectedIndices.
                 joinCoordsFunc selectedIndices complementIndices groupCoords selectedCoords
                   ! nat (selectedIndices ! i) = Num (selectedCoords ! i)))
         \<and> (\<forall>full. length full = n \<longrightarrow>
              joinCoordsFunc selectedIndices complementIndices
                (map (\<lambda>k. full ! nat k) complementIndices)
                (map (\<lambda>k. full ! nat k) selectedIndices)
              = map Num full)"
proof (intro conjI allI impI)
  fix groupCoords selectedCoords :: "int list"
  assume l: "length groupCoords = length complementIndices
             \<and> length selectedCoords = length selectedIndices"
  show "length (joinCoordsFunc selectedIndices complementIndices groupCoords selectedCoords) = n"
    using joinCoordsFunc_nth(1) [OF part cover] l by simp
  show "joinCoordsFunc selectedIndices complementIndices groupCoords selectedCoords
          ! nat (complementIndices ! i) = Num (groupCoords ! i)"
    if "i < length complementIndices" for i
    using joinCoordsFunc_nth(2) [OF part cover _ _ that] l by simp
  show "joinCoordsFunc selectedIndices complementIndices groupCoords selectedCoords
          ! nat (selectedIndices ! i) = Num (selectedCoords ! i)"
    if "i < length selectedIndices" for i
    using joinCoordsFunc_nth(3) [OF part cover _ _ that] l by simp
next
  fix full :: "int list"
  assume full: "length full = n"
  let ?g = "map (\<lambda>k. full ! nat k) complementIndices"
  let ?s = "map (\<lambda>k. full ! nat k) selectedIndices"
  let ?res = "joinCoordsFunc selectedIndices complementIndices ?g ?s"
  have lg: "length ?g = length complementIndices" and ls: "length ?s = length selectedIndices"
    by simp_all
  have len: "length ?res = n"
    using joinCoordsFunc_nth(1) [OF part cover lg ls] .
  show "?res = map Num full"
  proof (rule nth_equalityI)
    show "length ?res = length (map Num full)" using len full by simp
  next
    fix k assume "k < length ?res"
    then have k: "k < n" using len by simp
    then have "int k \<in> set (selectedIndices @ complementIndices)"
      using cover by simp
    then have "int k \<in> set selectedIndices \<or> int k \<in> set complementIndices"
      by simp
    then show "?res ! k = map Num full ! k"
    proof
      assume "int k \<in> set selectedIndices"
      then obtain i where i: "i < length selectedIndices" "selectedIndices ! i = int k"
        by (auto simp: in_set_conv_nth)
      have "?res ! nat (selectedIndices ! i) = Num (?s ! i)"
        using joinCoordsFunc_nth(3) [OF part cover lg ls i(1)] .
      then show ?thesis using i k full by simp
    next
      assume "int k \<in> set complementIndices"
      then obtain i where i: "i < length complementIndices" "complementIndices ! i = int k"
        by (auto simp: in_set_conv_nth)
      have "?res ! nat (complementIndices ! i) = Num (?g ! i)"
        using joinCoordsFunc_nth(2) [OF part cover lg ls i(1)] .
      then show ?thesis using i k full by simp
    qed
  qed
qed

theorem joinCoordsFunc_correct_witness:
  "joinCoordsFunc [3, 1] [0, 2, 4] [2, 3, 5] [7, 11] = [Num 2, Num 11, Num 3, Num 7, Num 5]
   \<and> joinCoordsFunc [3, 1] [0, 2, 4]
        (map (\<lambda>k. [2, 11, 3, 7, 5] ! nat k) [0, 2, 4]) (map (\<lambda>k. [2, 11, 3, 7, 5] ! nat k) [3, 1])
      = map Num [2, 11, 3, 7, 5]"
proof -
  have part: "distinct ([3, 1] @ [0, 2, 4 :: int])" by simp
  have cover: "set ([3, 1] @ [0, 2, 4 :: int]) = {0..<int 5}" by auto
  have "length [2, 11, 3, 7, 5 :: int] = 5" by simp
  then have "joinCoordsFunc [3, 1] [0, 2, 4]
        (map (\<lambda>k. [2, 11, 3, 7, 5] ! nat k) [0, 2, 4]) (map (\<lambda>k. [2, 11, 3, 7, 5] ! nat k) [3, 1])
      = map Num [2, 11, 3, 7, 5]"
    using joinCoordsFunc_correct [OF part cover] by blast
  moreover have "length [2, 3, 5 :: int] = length [0, 2, 4 :: int]
      \<and> length [7, 11 :: int] = length [3, 1 :: int]" by simp
  then have "\<forall>i < length [0, 2, 4 :: int].
      joinCoordsFunc [3, 1] [0, 2, 4] [2, 3, 5] [7, 11] ! nat ([0, 2, 4] ! i)
      = Num ([2, 3, 5] ! i)"
    using joinCoordsFunc_correct [OF part cover] by blast
  then have "(1::nat) < length [0, 2, 4 :: int] \<longrightarrow>
      joinCoordsFunc [3, 1] [0, 2, 4] [2, 3, 5] [7, 11] ! nat ([0, 2, 4] ! 1)
      = Num ([2, 3, 5] ! 1)"
    by (rule spec)
  then have "joinCoordsFunc [3, 1] [0, 2, 4] [2, 3, 5] [7, 11] ! nat ([0, 2, 4] ! 1)
      = Num ([2, 3, 5] ! 1)"
    by simp
  moreover have "joinCoordsFunc [3, 1] [0, 2, 4] [2, 3, 5] [7, 11]
      = [Num 2, Num 11, Num 3, Num 7, Num 5]"
    by code_simp
  ultimately show ?thesis by simp
qed

section \<open>Properties of the complex numbers\<close>

subsection \<open>Division\<close>

text \<open>The square of a double: \<^verbatim>\<open>NaN\<close>, \<open>+\<infinity>\<close>, or a finite value that is 0 or at least \<open>2^-1074\<close>.\<close>

lemma rnd_pos:
  assumes "0 < x"
  shows "rnd x = PosInf \<and> \<not> x \<le> 2 powi (- 1075)
         \<or> (\<exists>r. rnd x = Fin r \<and> (r = 0 \<or> 2 powi (- 1074) \<le> r)
           \<and> (r = 0 \<longleftrightarrow> x \<le> 2 powi (- 1075)))"
proof -
  have nn: "0 \<le> rnd_real x" using assms by (simp add: rnd_real_nonneg)
  have z: "rnd_real x = 0 \<longleftrightarrow> x \<le> 2 powi (- 1075)"
    using assms rnd_real_eq_0_iff [of x] by simp
  show ?thesis
  proof (cases "2 powi 1024 \<le> \<bar>rnd_real x\<bar>")
    case True
    have "(0::real) < 2 powi 1024" by simp
    then have "rnd_real x \<noteq> 0" using True by linarith
    then have "\<not> x \<le> 2 powi (- 1075)" using z by simp
    moreover have "rnd x = PosInf" using True assms by (simp add: rnd_def inf_of_def)
    ultimately show ?thesis by blast
  next
    case False
    show ?thesis
    proof (cases "rnd_real x = 0")
      case True
      then have "rnd x = Fin 0" using assms by (simp add: rnd_def zero_of_def)
      then show ?thesis using True z by blast
    next
      case nz: False
      then have "0 < rnd_real x" using nn by simp
      then have "2 powi (- 1074) \<le> rnd_real x" by (rule rnd_real_least)
      moreover have "rnd x = Fin (rnd_real x)"
        using False nz by (simp add: rnd_def Let_def)
      ultimately show ?thesis using nz z by blast
    qed
  qed
qed

lemma square_cases:
  "d_mul a a = NotANumber \<and> \<not> tiny a
   \<or> d_mul a a = PosInf \<and> \<not> tiny a
   \<or> (\<exists>r. d_mul a a = Fin r \<and> (r = 0 \<or> 2 powi (- 1074) \<le> r) \<and> (r = 0 \<longleftrightarrow> tiny a))"
proof (cases "is_finite a")
  case False
  then show ?thesis
    by (cases a) (simp_all add: d_mul_def tiny_def inf_of_def)
next
  case True
  then have nn: "a \<noteq> NotANumber" by auto
  show ?thesis
  proof (cases "val a = 0")
    case z: True
    then have "d_mul a a = Fin 0" using True nn by (simp add: d_mul_def zero_of_def)
    moreover have "tiny a" using True z by (simp add: tiny_def)
    ultimately show ?thesis by blast
  next
    case nz: False
    then have pos: "0 < val a * val a" using not_real_square_gt_zero by blast
    have m: "d_mul a a = rnd (val a * val a)"
      using True nn nz by (simp add: d_mul_def)
    have sq: "val a * val a = (val a)\<^sup>2" by (simp add: power2_eq_square)
    show ?thesis
      using rnd_pos [OF pos] True unfolding m tiny_def sq by blast
  qed
qed

lemma square_nan: "d_mul a a = NotANumber \<Longrightarrow> \<not> tiny a"
  and square_inf: "d_mul a a = PosInf \<Longrightarrow> \<not> tiny a"
  and square_fin: "d_mul a a = Fin r \<Longrightarrow> (r = 0 \<or> 2 powi (- 1074) \<le> r) \<and> (r = 0 \<longleftrightarrow> tiny a)"
  and square_shape: "d_mul a a = NotANumber \<or> d_mul a a = PosInf \<or> (\<exists>r. d_mul a a = Fin r)"
  using square_cases [of a] by (auto simp del: power_int_numeral_neg_numeral)

lemma sum_of_squares_zero:
  "d_eq (d_add (d_mul a a) (d_mul b b)) (Fin 0) \<longleftrightarrow> tiny a \<and> tiny b"
proof -
  consider (nan) "d_mul a a = NotANumber \<or> d_mul b b = NotANumber"
    | (inf) "d_mul a a \<noteq> NotANumber" "d_mul b b \<noteq> NotANumber"
        "d_mul a a = PosInf \<or> d_mul b b = PosInf"
    | (fin) r s where "d_mul a a = Fin r" "d_mul b b = Fin s"
    using square_shape [of a] square_shape [of b] by auto
  then show ?thesis
  proof cases
    case nan
    then have "\<not> tiny a \<or> \<not> tiny b" using square_nan by blast
    moreover have "d_add (d_mul a a) (d_mul b b) = NotANumber"
      using nan by (auto simp: d_add_def)
    ultimately show ?thesis by (auto simp: d_eq_def)
  next
    case inf
    then have "\<not> tiny a \<or> \<not> tiny b" using square_inf by blast
    moreover have "d_add (d_mul a a) (d_mul b b) = PosInf"
      using inf square_shape [of a] square_shape [of b] by (auto simp: d_add_def)
    ultimately show ?thesis by (auto simp: d_eq_def)
  next
    case fin
    have r: "r = 0 \<or> 2 powi (- 1074) \<le> r" "r = 0 \<longleftrightarrow> tiny a"
      using square_fin [OF fin(1)] by blast+
    have s: "s = 0 \<or> 2 powi (- 1074) \<le> s" "s = 0 \<longleftrightarrow> tiny b"
      using square_fin [OF fin(2)] by blast+
    have small: "(0::real) < 2 powi (- 1074)" by simp
    show ?thesis
    proof (cases "r = 0 \<and> s = 0")
      case True
      then have "d_add (Fin r) (Fin s) = Fin 0" by (simp add: d_add_def zero_of_def)
      then show ?thesis using True r(2) s(2) by (simp add: fin d_eq_def)
    next
      case False
      then have lo: "2 powi (- 1074) \<le> r + s" "0 < r + s"
        using r(1) s(1) small by linarith+
      have "(2::real) powi (- 1075) < 2 powi (- 1074)"
        by (simp only: two_powi_less_iff)
      then have "\<not> r + s \<le> 2 powi (- 1075)" using lo(1) by linarith
      then have "rnd (r + s) = PosInf \<or> (\<exists>t. rnd (r + s) = Fin t \<and> t \<noteq> 0)"
        using rnd_pos [OF lo(2)] by blast
      then have "\<not> d_eq (rnd (r + s)) (Fin 0)"
        by (auto simp: d_eq_def)
      moreover have "d_add (Fin r) (Fin s) = rnd (r + s)"
        using lo(2) by (simp add: d_add_def)
      ultimately show ?thesis using False r(2) s(2) by (simp add: fin)
    qed
  qed
qed

text \<open>Operations whose exact result is a double return it.\<close>

lemma rnd_double: "is_double x \<Longrightarrow> x \<noteq> 0 \<Longrightarrow> rnd x = Fin x"
  by (simp add: rnd_def is_double_def)

lemma is_double_int: "\<bar>k\<bar> \<le> 2 ^ 53 \<Longrightarrow> is_double (of_int k)"
proof -
  assume k: "\<bar>k\<bar> \<le> 2 ^ 53"
  then have "\<bar>real_of_int k\<bar> \<le> 2 ^ 53"
    by (metis of_int_abs of_int_le_iff of_int_numeral of_int_power)
  then have "\<bar>real_of_int k\<bar> < 2 powi 1024" by simp
  then show ?thesis using rnd_real_int [OF k] by (simp add: is_double_def)
qed

lemma is_double_pow2:
  assumes "- 1022 \<le> k" and "k \<le> 1023"
  shows "is_double (2 powi k)"
proof -
  have "(2::real) powi k < 2 powi (k + 1)" unfolding two_powi_less_iff by simp
  then have u: "ulp (2 powi k) = 2 powi (k - 52)"
    using ulp_eq [of k "2 powi k"] assms(1) by (simp add: max_def)
  have "(2::real) powi (52 + (k - 52)) = 2 powi 52 * 2 powi (k - 52)"
    by (rule power_int_add) simp
  then have "(2::real) powi k = of_int (2 ^ 52) * 2 powi (k - 52)"
    by simp
  then have "(2::real) powi k = of_int (2 ^ 52) * ulp (2 powi k)"
    unfolding u .
  then have "rnd_real (2 powi k) = 2 powi k" by (rule rnd_real_grid)
  moreover have "(2::real) powi k < 2 powi 1024"
    using assms(2) unfolding two_powi_less_iff by simp
  ultimately show ?thesis by (simp add: is_double_def)
qed

lemma is_finite_cases: "is_finite a \<Longrightarrow> a = Fin (val a) \<or> a = NegZero"
  by (cases a) simp_all

lemma d_mul_exact:
  assumes "is_finite a" and "is_finite b" and "is_double (val a * val b)"
  shows "is_finite (d_mul a b) \<and> val (d_mul a b) = val a * val b"
proof -
  have n: "a \<noteq> NotANumber" "b \<noteq> NotANumber" using assms(1,2) by auto
  show ?thesis
  proof (cases "val a * val b = 0")
    case True
    then show ?thesis using assms(1,2) n by (simp add: d_mul_def zero_of_def)
  next
    case False
    then have "d_mul a b = Fin (val a * val b)"
      using assms n rnd_double [OF assms(3)] by (simp add: d_mul_def)
    then show ?thesis by simp
  qed
qed

lemma d_add_exact:
  assumes "is_finite a" and "is_finite b" and "is_double (val a + val b)"
  shows "is_finite (d_add a b) \<and> val (d_add a b) = val a + val b"
proof -
  have n: "a \<noteq> NotANumber" "b \<noteq> NotANumber" using assms(1,2) by auto
  show ?thesis
  proof (cases "val a + val b = 0")
    case True
    then show ?thesis using assms(1,2) n by (simp add: d_add_def zero_of_def)
  next
    case False
    then have "d_add a b = Fin (val a + val b)"
      using assms n rnd_double [OF assms(3)] by (simp add: d_add_def)
    then show ?thesis by simp
  qed
qed

lemma d_neg_exact: "is_finite a \<Longrightarrow> is_finite (d_neg a) \<and> val (d_neg a) = - val a"
  by (cases a) simp_all

lemma d_sub_exact:
  assumes "is_finite a" and "is_finite b" and "is_double (val a - val b)"
  shows "is_finite (d_sub a b) \<and> val (d_sub a b) = val a - val b"
  using d_add_exact [of a "d_neg b"] d_neg_exact [OF assms(2)] assms(1,3)
  by (simp add: d_sub_def)

lemma d_div_exact:
  assumes "is_finite a" and "is_finite b" and "val b \<noteq> 0" and "is_double (val a / val b)"
  shows "is_finite (d_div a b) \<and> val (d_div a b) = val a / val b"
proof -
  have n: "a \<noteq> NotANumber" "b \<noteq> NotANumber" using assms(1,2) by auto
  show ?thesis
  proof (cases "val a / val b = 0")
    case True
    then show ?thesis using assms(1,2,3) n by (simp add: d_div_def zero_of_def)
  next
    case False
    then have "d_div a b = Fin (val a / val b)"
      using assms n rnd_double [OF assms(4)] by (simp add: d_div_def)
    then show ?thesis by simp
  qed
qed

lemma div_cx_fails:
  "div_cx z1 z2 = Inl DivisionByZero \<longleftrightarrow> tiny (re z2) \<and> tiny (im z2)"
  using sum_of_squares_zero [of "im z2" "re z2"] by (auto simp: div_cx_def Let_def)

lemma div_cx_exact:
  assumes fin: "is_finite (re z1)" "is_finite (im z1)" "is_finite (re z2)" "is_finite (im z2)"
    and ex: "exact_div (val (re z1)) (val (im z1)) (val (re z2)) (val (im z2))"
  shows "\<exists>q. div_cx z1 z2 = Inr q \<and> is_finite (re q) \<and> is_finite (im q)
           \<and> to_complex q = to_complex z1 / to_complex z2"
proof -
  define a b c d where "a = val (re z1)" and "b = val (im z1)"
    and "c = val (re z2)" and "d = val (im z2)"
  note ex' = ex [unfolded exact_div_def, folded a_def b_def c_def d_def]
  define denom where "denom = d_add (d_mul (im z2) (im z2)) (d_mul (re z2) (re z2))"
  have dd: "is_finite (d_mul (im z2) (im z2)) \<and> val (d_mul (im z2) (im z2)) = d * d"
    using fin ex' unfolding d_def by (intro d_mul_exact) simp_all
  have cc: "is_finite (d_mul (re z2) (re z2)) \<and> val (d_mul (re z2) (re z2)) = c * c"
    using fin ex' unfolding c_def by (intro d_mul_exact) simp_all
  have den: "is_finite denom \<and> val denom = d * d + c * c"
    unfolding denom_def
    using d_add_exact [of "d_mul (im z2) (im z2)" "d_mul (re z2) (re z2)"] dd cc ex' by simp
  have nz: "val denom \<noteq> 0" using den ex' by simp
  then have ne: "\<not> d_eq denom (Fin 0)"
    using den by (auto simp: d_eq_def)
  have ac: "is_finite (d_mul (re z1) (re z2)) \<and> val (d_mul (re z1) (re z2)) = a * c"
    using fin ex' unfolding a_def c_def by (intro d_mul_exact) simp_all
  have bd: "is_finite (d_mul (im z1) (im z2)) \<and> val (d_mul (im z1) (im z2)) = b * d"
    using fin ex' unfolding b_def d_def by (intro d_mul_exact) simp_all
  have cb: "is_finite (d_mul (re z2) (im z1)) \<and> val (d_mul (re z2) (im z1)) = c * b"
    using fin ex' unfolding b_def c_def by (intro d_mul_exact) simp_all
  have ad: "is_finite (d_mul (re z1) (im z2)) \<and> val (d_mul (re z1) (im z2)) = a * d"
    using fin ex' unfolding a_def d_def by (intro d_mul_exact) simp_all
  define n1 where "n1 = d_add (d_mul (re z1) (re z2)) (d_mul (im z1) (im z2))"
  define n2 where "n2 = d_sub (d_mul (re z2) (im z1)) (d_mul (re z1) (im z2))"
  have n1: "is_finite n1 \<and> val n1 = a * c + b * d"
    unfolding n1_def
    using d_add_exact [of "d_mul (re z1) (re z2)" "d_mul (im z1) (im z2)"] ac bd ex' by simp
  have n2: "is_finite n2 \<and> val n2 = c * b - a * d"
    unfolding n2_def
    using d_sub_exact [of "d_mul (re z2) (im z1)" "d_mul (re z1) (im z2)"] cb ad ex' by simp
  have q1: "is_finite (d_div n1 denom) \<and> val (d_div n1 denom) = (a * c + b * d) / (d * d + c * c)"
    using d_div_exact [of n1 denom] n1 den nz ex' by simp
  have q2: "is_finite (d_div n2 denom) \<and> val (d_div n2 denom) = (c * b - a * d) / (d * d + c * c)"
    using d_div_exact [of n2 denom] n2 den nz ex' by simp
  have res: "div_cx z1 z2 = Inr (Cx (d_div n1 denom) (d_div n2 denom))"
    using ne by (simp add: div_cx_def denom_def n1_def n2_def Let_def)
  have "to_complex (Cx (d_div n1 denom) (d_div n2 denom)) = to_complex z1 / to_complex z2"
    using q1 q2
    by (simp add: to_complex_def Cx_def complex_eq_iff Re_divide Im_divide power2_eq_square
        a_def b_def c_def d_def add.commute mult.commute)
  then show ?thesis
    using res q1 q2 by (simp add: Cx_def)
qed

text \<open>
  C6, as amended. \<open>div\<close> fails, with \<open>DivisionByZero\<close> and no other error, exactly when
  the double it computes for \<open>im\<^sup>2 + re\<^sup>2\<close> of the divisor is 0: that is when both
  components are finite with a square of at most \<open>2^-1075\<close>, which is so for
  \<open>Complex(0, 0)\<close> (\<open>Complex(1, 0).div(Complex(0, 0))\<close> fails) and also for small
  non-zero divisors, whose squares underflow. Otherwise it returns a value; this is
  the quotient of the two complex numbers whenever no operation on the way rounds.
\<close>

theorem div_fails_iff:
  "(div_cx z1 z2 = Inl DivisionByZero \<longleftrightarrow> tiny (re z2) \<and> tiny (im z2))
   \<and> (\<forall>e. div_cx z1 z2 = Inl e \<longrightarrow> e = DivisionByZero)
   \<and> div_cx (Cx (Fin 1) (Fin 0)) (Cx (Fin 0) (Fin 0)) = Inl DivisionByZero
   \<and> (is_finite (re z1) \<and> is_finite (im z1) \<and> is_finite (re z2) \<and> is_finite (im z2)
        \<and> exact_div (val (re z1)) (val (im z1)) (val (re z2)) (val (im z2)) \<longrightarrow>
        (\<exists>q. div_cx z1 z2 = Inr q \<and> is_finite (re q) \<and> is_finite (im q)
             \<and> to_complex q = to_complex z1 / to_complex z2))"
proof (intro conjI allI impI)
  show "div_cx z1 z2 = Inl DivisionByZero \<longleftrightarrow> tiny (re z2) \<and> tiny (im z2)"
    by (rule div_cx_fails)
  show "e = DivisionByZero" if "div_cx z1 z2 = Inl e" for e
    using that by (simp add: div_cx_def Let_def split: if_splits)
  have "tiny (Fin 0)" by (simp add: tiny_def)
  then show "div_cx (Cx (Fin 1) (Fin 0)) (Cx (Fin 0) (Fin 0)) = Inl DivisionByZero"
    by (simp add: div_cx_fails Cx_def)
  show "\<exists>q. div_cx z1 z2 = Inr q \<and> is_finite (re q) \<and> is_finite (im q)
             \<and> to_complex q = to_complex z1 / to_complex z2"
    if "is_finite (re z1) \<and> is_finite (im z1) \<and> is_finite (re z2) \<and> is_finite (im z2)
        \<and> exact_div (val (re z1)) (val (im z1)) (val (re z2)) (val (im z2))"
    using that by (intro div_cx_exact) simp_all
qed

lemma rnd_ints:
  "rnd 1 = Fin 1" "rnd 2 = Fin 2" "rnd 3 = Fin 3" "rnd 4 = Fin 4" "rnd 6 = Fin 6"
  "rnd (- 1) = Fin (- 1)" "rnd (- 2) = Fin (- 2)"
  using rnd_exact_int [of 1 1] rnd_exact_int [of 2 2] rnd_exact_int [of 3 3]
    rnd_exact_int [of 4 4] rnd_exact_int [of 6 6] rnd_exact_int [of "- 1" "- 1"]
    rnd_exact_int [of "- 2" "- 2"]
  by simp_all

lemma is_double_ints:
  "is_double 1" "is_double 2" "is_double 3" "is_double 4" "is_double 6"
  "is_double (- 1)" "is_double (- 2)"
  using is_double_int [of 1] is_double_int [of 2] is_double_int [of 3] is_double_int [of 4]
    is_double_int [of 6] is_double_int [of "- 1"] is_double_int [of "- 2"]
  by simp_all

theorem div_fails_iff_witness:
  "div_cx (Cx (Fin 4) (Fin 2)) (Cx (Fin 1) (Fin 1)) = Inr (Cx (Fin 3) (Fin (- 1)))
   \<and> to_complex (Cx (Fin 3) (Fin (- 1)))
       = to_complex (Cx (Fin 4) (Fin 2)) / to_complex (Cx (Fin 1) (Fin 1))
   \<and> div_cx (Cx (Fin 3) (Fin 4)) (Cx (Fin 0) (Fin 0)) = Inl DivisionByZero"
proof -
  have ex: "is_finite (re (Cx (Fin 4) (Fin 2))) \<and> is_finite (im (Cx (Fin 4) (Fin 2)))
      \<and> is_finite (re (Cx (Fin 1) (Fin 1))) \<and> is_finite (im (Cx (Fin 1) (Fin 1)))
      \<and> exact_div (val (re (Cx (Fin 4) (Fin 2)))) (val (im (Cx (Fin 4) (Fin 2))))
          (val (re (Cx (Fin 1) (Fin 1)))) (val (im (Cx (Fin 1) (Fin 1))))"
    by (simp add: Cx_def exact_div_def is_double_ints)
  have v: "div_cx (Cx (Fin 4) (Fin 2)) (Cx (Fin 1) (Fin 1)) = Inr (Cx (Fin 3) (Fin (- 1)))"
    by (simp add: div_cx_def Cx_def d_mul_def d_add_def d_sub_def d_div_def d_eq_def rnd_ints)
  have "\<exists>q. div_cx (Cx (Fin 4) (Fin 2)) (Cx (Fin 1) (Fin 1)) = Inr q
          \<and> is_finite (re q) \<and> is_finite (im q)
          \<and> to_complex q = to_complex (Cx (Fin 4) (Fin 2)) / to_complex (Cx (Fin 1) (Fin 1))"
    using ex div_fails_iff [of "Cx (Fin 4) (Fin 2)" "Cx (Fin 1) (Fin 1)"] by blast
  then have q: "to_complex (Cx (Fin 3) (Fin (- 1)))
      = to_complex (Cx (Fin 4) (Fin 2)) / to_complex (Cx (Fin 1) (Fin 1))"
    using v by simp
  have "tiny (re (Cx (Fin 0) (Fin 0))) \<and> tiny (im (Cx (Fin 0) (Fin 0)))"
    by (simp add: Cx_def tiny_def)
  then have "div_cx (Cx (Fin 3) (Fin 4)) (Cx (Fin 0) (Fin 0)) = Inl DivisionByZero"
    using div_fails_iff [of "Cx (Fin 3) (Fin 4)" "Cx (Fin 0) (Fin 0)"] by blast
  then show ?thesis using v q by simp
qed

theorem div_fails_iff_counterexample:
  "is_double (2 powi (- 600))
   \<and> (2 powi (- 600))\<^sup>2 + 0\<^sup>2 \<noteq> (0::real)
   \<and> div_cx (Cx (Fin 1) (Fin 0)) (Cx (Fin (2 powi (- 600))) (Fin 0)) = Inl DivisionByZero"
proof -
  have d: "is_double (2 powi (- 600))" by (rule is_double_pow2) simp_all
  have "(2::real) powi (- 600 + - 600) = 2 powi (- 600) * 2 powi (- 600)"
    by (rule power_int_add) simp
  then have sq: "((2::real) powi (- 600))\<^sup>2 = 2 powi (- 1200)"
    by (simp add: power2_eq_square)
  have "(2::real) powi (- 1200) \<le> 2 powi (- 1075)"
    unfolding two_powi_le_iff by simp
  then have "tiny (Fin (2 powi (- 600)))"
    unfolding tiny_def sq [symmetric] by simp
  moreover have "tiny (Fin 0)" by (simp add: tiny_def)
  ultimately have
    "div_cx (Cx (Fin 1) (Fin 0)) (Cx (Fin (2 powi (- 600))) (Fin 0)) = Inl DivisionByZero"
    unfolding div_cx_fails by (simp add: Cx_def)
  moreover have "((2::real) powi (- 600))\<^sup>2 + 0\<^sup>2 \<noteq> 0"
    unfolding sq by simp
  ultimately show ?thesis using d by blast
qed

subsection \<open>Multiplication\<close>








subsection \<open>The argument\<close>























end
